theory Spec2Isabelle
  imports
    Complex_Main
    "HOL-Library.Multiset"
    "HOL-Library.Log_Nat"
    "HOL-Library.Char_ord"
    "HOL-Library.List_Lexorder"
begin

section \<open>The Patch Tuesday viewer: data model\<close>

text \<open>
  The page component of the viewer (the file under \<^verbatim>\<open>src/unnamed/part_000\<close>) is embedded
  function by function. A number of the model is a rational: the decimal number that is
  written, in the dataset or in the source, with no more digits than tell its double from
  the other doubles (a score has one decimal). The number that JavaScript holds for it is
  the nearest double. Rounding is monotone, so that two doubles that differ are ordered as
  the decimals they are written as, and the comparisons of the source are taken on the
  decimals. The arithmetic of the source, which is the sum and the quotient of the
  average, is done on the doubles, each result rounded to the nearest double (section
  Doubles). A JavaScript string is a \<^typ>\<open>string\<close>. An exception is a value of \<open>error\<close>,
  and a function that can throw returns \<open>error + 'a\<close>.
\<close>

datatype error = TypeError | SyntaxError | Error string

record Metadata =
  title :: string
  tracking_id :: string
  release_date :: string
  current_release_date :: string
  total_vulnerabilities :: nat
  processed_date :: string
  script_version :: string

record ProductInfo =
  name :: string
  category :: string

text \<open>
  An element of \<^verbatim>\<open>affected_products\<close>, \<^verbatim>\<open>{ id, name, category }\<close>: a product info
  with an identifier (\<open>id\<close> is the identity function of HOL, the field is \<open>product_id\<close>).
\<close>

record ProductRef = ProductInfo +
  product_id :: string

text \<open>A vulnerability record; its field \<^verbatim>\<open>title\<close> is \<open>vuln_title\<close>, after that of the metadata.\<close>

record Vulnerability =
  cve :: string
  vuln_title :: string
  cvss_score :: "rat option"
  exploited :: bool
  exploitation_likely :: bool
  threat_types :: "string list"
  affected_products :: "ProductRef list"

definition MONTH_ORDER :: "string list" where
  "MONTH_ORDER = [''Jan'', ''Feb'', ''Mar'', ''Apr'', ''May'', ''Jun'',
                  ''Jul'', ''Aug'', ''Sep'', ''Oct'', ''Nov'', ''Dec'']"

definition VULN_TYPES :: "string list" where
  "VULN_TYPES = [''Elevation of Privilege'', ''Security Feature Bypass'',
                 ''Remote Code Execution'', ''Information Disclosure'',
                 ''Denial of Service'', ''Spoofing'', ''Edge - Chromium'']"

section \<open>Severity classifier\<close>

text \<open>\<^verbatim>\<open>getCvssSeverity(score: number | null): string\<close>, with its checks in the source's order.\<close>

definition getCvssSeverity :: "rat option \<Rightarrow> string" where
  "getCvssSeverity score =
     (case score of
        None \<Rightarrow> ''None''
      | Some s \<Rightarrow>
          if s = 0 then ''None''
          else if s \<le> 39 / 10 then ''Low''
          else if s \<le> 69 / 10 then ''Medium''
          else if s \<le> 89 / 10 then ''High''
          else ''Critical'')"

text \<open>\<^verbatim>\<open>displayCategory(cat)\<close>: the label shown for a category.\<close>

definition displayCategory :: "string \<Rightarrow> string" where
  "displayCategory cat = (if cat = ''Mariner'' then ''Azure Linux (CBL-Mariner)'' else cat)"

section \<open>Summary aggregator\<close>

text \<open>
  The object returned by \<^verbatim>\<open>getSummaryStats\<close>. Its fields \<^verbatim>\<open>total\<close> and \<^verbatim>\<open>exploited\<close>
  are named \<open>totalCount\<close> and \<open>exploitedCount\<close> here (\<open>total\<close> is a constant of HOL, and
  \<open>exploited\<close> a field of \<open>Vulnerability\<close>).
  \<open>byType\<close> is the object built by \<^verbatim>\<open>Object.fromEntries\<close>, as the list of its entries;
  \<^verbatim>\<open>byType[type]\<close> is \<open>map_of (byType s) type\<close>. \<open>avg\<close> is a double (section Doubles).
\<close>

record SummaryStats =
  totalCount :: nat
  exploitedCount :: nat
  likely :: nat
  high :: nat
  critical :: nat
  avg :: "rat option"
  byType :: "(string \<times> nat) list"

subsection \<open>Doubles\<close>

text \<open>
  The numbers of JavaScript are the doubles of IEEE 754 (binary64): zero and the numbers
  \<open>m * 2 ^ e\<close> with an integer \<open>m\<close> of at most 53 bits and \<open>- 1074 \<le> e \<le> 971\<close>, and the
  values that are not finite (the infinities and \<^verbatim>\<open>NaN\<close>). A finite double is modelled
  by its value, a rational; a value that is not finite is \<open>None\<close>. The sign of a zero is
  not modelled.

  \<open>pow2 e\<close> is \<open>2 ^ e\<close> for an integer \<open>e\<close>, and \<open>ilog2 x\<close> the integer \<open>k\<close> with
  \<open>2 ^ k \<le> x < 2 ^ (k + 1)\<close>, for a positive \<open>x\<close>.
\<close>

definition pow2 :: "int \<Rightarrow> rat" where
  "pow2 e = (if 0 \<le> e then 2 ^ nat e else 1 / 2 ^ nat (- e))"

definition ilog2 :: "rat \<Rightarrow> int" where
  "ilog2 x = (if 1 \<le> x then int (floorlog 2 (nat \<lfloor>x\<rfloor>)) - 1
              else - int (floorlog 2 (nat (\<lceil>1 / x\<rceil> - 1))))"

text \<open>The nearest integer, the even one of the two when they are equally near.\<close>

definition roundEven :: "rat \<Rightarrow> int" where
  "roundEven x =
     (let n = \<lfloor>x\<rfloor>; r = x - of_int n
      in if r < 1 / 2 then n else if 1 / 2 < r then n + 1 else if even n then n else n + 1)"

text \<open>
  The double that a number is rounded to (round to nearest, ties to even): the number is
  scaled by the power of two that leaves 53 bits before the point (fewer below
  \<open>2 ^ - 1022\<close>, where the doubles are \<open>2 ^ - 1074\<close> apart), rounded to an integer and
  scaled back; from \<open>2 ^ 1024\<close> on the result is an infinity. This is what
  \<^verbatim>\<open>JSON.parse\<close> and the compiler do with a decimal number, and what an operation does
  with its exact result.
\<close>

definition toDouble :: "rat \<Rightarrow> rat option" where
  "toDouble x =
     (if x = 0 then Some 0
      else (let e = max (ilog2 \<bar>x\<bar> - 52) (- 1074);
                y = of_int (roundEven (\<bar>x\<bar> / pow2 e)) * pow2 e
            in if pow2 1024 \<le> y then None else Some (sgn x * y)))"

text \<open>
  \<^verbatim>\<open>a + b\<close> on numbers: the sum of two finite doubles, rounded; a value that is not
  finite gives a value that is not finite.
\<close>

definition js_add :: "rat option \<Rightarrow> rat option \<Rightarrow> rat option" where
  "js_add a b =
     (case a of
        None \<Rightarrow> None
      | Some x \<Rightarrow> (case b of None \<Rightarrow> None | Some y \<Rightarrow> toDouble (x + y)))"

text \<open>
  \<^verbatim>\<open>a / b\<close> for a divisor that is a finite double, as the length of an array is: the
  quotient, rounded. JavaScript gives \<^verbatim>\<open>NaN\<close> or an infinity when the divisor is zero
  or the dividend is not finite.
\<close>

definition js_div :: "rat option \<Rightarrow> rat \<Rightarrow> rat option" where
  "js_div a b =
     (case a of
        None \<Rightarrow> None
      | Some x \<Rightarrow> if b = 0 then None else toDouble (x / b))"

subsection \<open>The statistics\<close>

text \<open>
  \<^verbatim>\<open>getSummaryStats(vulns)\<close>. The scores are those of the records that have one
  (\<^verbatim>\<open>.filter((s): s is number => s !== null)\<close>). For the average,
  \<^verbatim>\<open>cvssScores.length ? (cvssScores.reduce((a, b) => a + b, 0) / cvssScores.length) : 0\<close>,
  \<^verbatim>\<open>reduce\<close> is a left fold from 0 with the addition of doubles over the doubles of the
  scores, and the division is that of doubles.
\<close>

definition getSummaryStats :: "Vulnerability list \<Rightarrow> SummaryStats" where
  "getSummaryStats vulns =
     (let cvssScores = List.map_filter (\<lambda>s. s) (map cvss_score vulns) in
      \<lparr> totalCount = length vulns,
        exploitedCount = length (filter exploited vulns),
        likely = length (filter exploitation_likely vulns),
        high = length (filter (\<lambda>s. s \<ge> 7) cvssScores),
        critical = length (filter (\<lambda>s. s \<ge> 9) cvssScores),
        avg = (if length cvssScores \<noteq> 0
               then js_div (foldl (\<lambda>a b. js_add a b) (Some 0) (map toDouble cvssScores))
                      (of_nat (length cvssScores))
               else Some 0),
        byType = map (\<lambda>type. (type, length (filter (\<lambda>v. type \<in> set (threat_types v)) vulns)))
                   VULN_TYPES \<rparr>)"

section \<open>Strings, arrays and plain objects of JavaScript\<close>

text \<open>\<^verbatim>\<open>s.endsWith(t)\<close>.\<close>

definition endsWith :: "string \<Rightarrow> string \<Rightarrow> bool" where
  "endsWith s t = (length t \<le> length s \<and> drop (length s - length t) s = t)"

text \<open>
  \<^verbatim>\<open>s.split(sep)\<close> for a separator of one character: the pieces between the occurrences
  of the separator, at least one piece (\<^verbatim>\<open>"".split("-")\<close> is \<^verbatim>\<open>[""]\<close>).
\<close>

fun js_split :: "char \<Rightarrow> string \<Rightarrow> string list" where
  "js_split sep [] = [[]]"
| "js_split sep (c # cs) =
     (if c = sep then [] # js_split sep cs
      else (case js_split sep cs of
              [] \<Rightarrow> [[c]]
            | p # ps \<Rightarrow> (c # p) # ps))"

text \<open>
  \<^verbatim>\<open>s.replace(pat, rep)\<close> for a string pattern: the first occurrence of the pattern is
  replaced, the string is returned as it is when there is none.
\<close>

fun js_replace :: "string \<Rightarrow> string \<Rightarrow> string \<Rightarrow> string" where
  "js_replace pat rep [] = (if pat = [] then rep else [])"
| "js_replace pat rep (c # cs) =
     (if take (length pat) (c # cs) = pat then rep @ drop (length pat) (c # cs)
      else c # js_replace pat rep cs)"

text \<open>\<^verbatim>\<open>xs.indexOf(x)\<close>: the first index of \<open>x\<close>, or -1.\<close>

fun indexOf :: "'a list \<Rightarrow> 'a \<Rightarrow> int" where
  "indexOf [] x = - 1"
| "indexOf (y # ys) x =
     (if y = x then 0 else (if indexOf ys x < 0 then - 1 else indexOf ys x + 1))"

text \<open>
  \<^verbatim>\<open>xs.sort(cmp)\<close>. The sort of JavaScript is stable and, for a comparator that is
  consistent, its result is determined; it is modelled by a stable insertion sort that
  puts \<open>x\<close> before the first \<open>y\<close> with \<open>cmp x y \<le> 0\<close>. The comparator may throw, and
  the sort throws then. An array of fewer than two elements is returned without a call
  of the comparator; with two elements or more every element is an argument of at least
  one call, in this model as in every engine.
\<close>

fun js_insert :: "('a \<Rightarrow> 'a \<Rightarrow> error + 'n::{zero,linorder}) \<Rightarrow> 'a \<Rightarrow> 'a list \<Rightarrow> error + 'a list" where
  "js_insert cmp x [] = Inr [x]"
| "js_insert cmp x (y # ys) =
     (case cmp x y of
        Inl e \<Rightarrow> Inl e
      | Inr c \<Rightarrow>
          if c \<le> 0 then Inr (x # y # ys)
          else (case js_insert cmp x ys of
                  Inl e \<Rightarrow> Inl e
                | Inr zs \<Rightarrow> Inr (y # zs)))"

fun js_sort :: "('a \<Rightarrow> 'a \<Rightarrow> error + 'n::{zero,linorder}) \<Rightarrow> 'a list \<Rightarrow> error + 'a list" where
  "js_sort cmp [] = Inr []"
| "js_sort cmp (x # xs) =
     (case js_sort cmp xs of
        Inl e \<Rightarrow> Inl e
      | Inr ys \<Rightarrow> js_insert cmp x ys)"

text \<open>\<^verbatim>\<open>xs.forEach(f)\<close> for a callback that updates a state and may throw.\<close>

fun forEach :: "('s \<Rightarrow> 'a \<Rightarrow> error + 's) \<Rightarrow> 'a list \<Rightarrow> 's \<Rightarrow> error + 's" where
  "forEach f [] s = Inr s"
| "forEach f (x # xs) s =
     (case f s x of
        Inl e \<Rightarrow> Inl e
      | Inr s' \<Rightarrow> forEach f xs s')"

text \<open>
  The names that every plain object \<^verbatim>\<open>{}\<close> inherits from \<^verbatim>\<open>Object.prototype\<close>
  (ECMAScript, with its annex B). Reading one of them on an object that has no own
  property of that name gives a function (or, for \<^verbatim>\<open>__proto__\<close>, the prototype object):
  a value that is truthy and has no method \<^verbatim>\<open>push\<close>.
\<close>

definition Object_prototype :: "string list" where
  "Object_prototype =
     [''constructor'', ''__proto__'', ''hasOwnProperty'', ''isPrototypeOf'',
      ''propertyIsEnumerable'', ''toLocaleString'', ''toString'', ''valueOf'',
      ''__defineGetter__'', ''__defineSetter__'', ''__lookupGetter__'',
      ''__lookupSetter__'']"

section \<open>Index grouper\<close>

text \<open>
  The object \<^verbatim>\<open>grouped: Record<string, string[]>\<close> is the list of its own properties,
  each key once, in the order of their creation. The object is read by key
  (\<open>map_of\<close>); the order in which JavaScript enumerates the keys of an object (keys that
  are array indices first) is not modelled.
\<close>

type_synonym grouped = "(string \<times> string list) list"

text \<open>\<^verbatim>\<open>grouped[year].push(file)\<close> on an own property.\<close>

definition push :: "string \<Rightarrow> string \<Rightarrow> grouped \<Rightarrow> grouped" where
  "push year file grouped =
     map (\<lambda>(k, files). if k = year then (k, files @ [file]) else (k, files)) grouped"

text \<open>
  The callback of \<^verbatim>\<open>data.forEach\<close>:
  \<^verbatim>\<open>
    if (!file.endsWith('.json')) return;
    const year = file.split("-")[0];
    if (!grouped[year]) grouped[year] = [];
    grouped[year].push(file);
  \<close>
  When \<open>year\<close> is no own property but an inherited one, \<^verbatim>\<open>grouped[year]\<close> is truthy, no
  array is created and the call of \<^verbatim>\<open>push\<close> is a \<^verbatim>\<open>TypeError\<close>.
\<close>

definition yearOf :: "string \<Rightarrow> string" where
  "yearOf file = hd (js_split CHR ''-'' file)"

definition addFile :: "grouped \<Rightarrow> string \<Rightarrow> error + grouped" where
  "addFile grouped file =
     (if \<not> endsWith file ''.json'' then Inr grouped
      else (let year = yearOf file in
            case map_of grouped year of
              Some files \<Rightarrow> Inr (push year file grouped)
            | None \<Rightarrow>
                if year \<in> set Object_prototype then Inl TypeError
                else Inr (grouped @ [(year, [file])])))"

text \<open>
  The comparator of the sort of a year's files:
  \<^verbatim>\<open>
    const monthA = a.split("-")[1].replace(".json", "");
    const monthB = b.split("-")[1].replace(".json", "");
    return MONTH_ORDER.indexOf(monthA) - MONTH_ORDER.indexOf(monthB);
  \<close>
  \<^verbatim>\<open>a.split("-")[1]\<close> is \<^verbatim>\<open>undefined\<close> when \<open>a\<close> has no separator, and the call of
  \<^verbatim>\<open>replace\<close> on it is a \<^verbatim>\<open>TypeError\<close>.
\<close>

definition monthOf :: "string \<Rightarrow> error + string" where
  "monthOf a =
     (case js_split CHR ''-'' a of
        _ # m # _ \<Rightarrow> Inr (js_replace ''.json'' [] m)
      | _ \<Rightarrow> Inl TypeError)"

definition compareMonths :: "string \<Rightarrow> string \<Rightarrow> error + int" where
  "compareMonths a b =
     (case monthOf a of
        Inl e \<Rightarrow> Inl e
      | Inr monthA \<Rightarrow>
          (case monthOf b of
             Inl e \<Rightarrow> Inl e
           | Inr monthB \<Rightarrow> Inr (indexOf MONTH_ORDER monthA - indexOf MONTH_ORDER monthB)))"

text \<open>\<^verbatim>\<open>for (const year in grouped) grouped[year].sort(...)\<close>.\<close>

fun sortGroups :: "grouped \<Rightarrow> error + grouped" where
  "sortGroups [] = Inr []"
| "sortGroups ((year, files) # rest) =
     (case js_sort compareMonths files of
        Inl e \<Rightarrow> Inl e
      | Inr files' \<Rightarrow>
          (case sortGroups rest of
             Inl e \<Rightarrow> Inl e
           | Inr rest' \<Rightarrow> Inr ((year, files') # rest')))"

text \<open>
  The body of the handler of the index: the value it passes to \<^verbatim>\<open>setPatches\<close>. Its
  parameter \<^verbatim>\<open>data: string[]\<close> is \<open>entries\<close> here, \<open>data\<close> being the dataset of the
  component's state.
\<close>

definition groupIndex :: "string list \<Rightarrow> error + grouped" where
  "groupIndex entries =
     (case forEach addFile entries [] of
        Inl e \<Rightarrow> Inl e
      | Inr grouped \<Rightarrow> sortGroups grouped)"

text \<open>
  The calendar position by which a file is ordered, for the statements about the result:
  the index of its month in \<open>MONTH_ORDER\<close>, -1 for a month that is not in the table (and
  for a file that has no month, which is alone in its group whenever the grouper returns).
\<close>

definition monthRank :: "string \<Rightarrow> int" where
  "monthRank a = (case monthOf a of Inl e \<Rightarrow> - 1 | Inr m \<Rightarrow> indexOf MONTH_ORDER m)"

section \<open>The component's state and its effects\<close>

text \<open>
  The arrays of vulnerability records are objects with an identity: the state refers to
  them by address, and \<open>heap\<close> gives the contents of each array that exists. A new
  array takes the next address.
\<close>

type_synonym addr = nat
type_synonym heap = "Vulnerability list list"

definition alloc :: "Vulnerability list \<Rightarrow> heap \<Rightarrow> addr \<times> heap" where
  "alloc xs h = (length h, h @ [xs])"

text \<open>
  \<^verbatim>\<open>PatchTuesdayData\<close>. \<open>'v\<close> is \<open>Vulnerability list\<close> for the value that a response
  carries, and \<open>addr\<close> for the object in the state, whose array is in the heap. The
  source casts the parsed body to this type without a check
  (\<^verbatim>\<open>.then((json: PatchTuesdayData) => ...)\<close>), so that a field which the interface
  declares can be missing from the object at run time: it is \<^verbatim>\<open>undefined\<close> then, which
  is \<open>None\<close> here. A field that is present has the declared type.
\<close>

record 'v PatchTuesdayData =
  metadata :: "Metadata option"
  products :: "(string \<times> ProductInfo) list option"
  vulnerabilities :: "'v option"

text \<open>\<^verbatim>\<open>'desc' | 'asc' | ''\<close>, the type of \<^verbatim>\<open>cvssSort\<close>.\<close>

datatype sort_dir = Desc | Asc | NoSort

text \<open>
  The state variables of the component (\<^verbatim>\<open>useState\<close>), the heap, and the lines written
  by \<^verbatim>\<open>console.error\<close>. \<^verbatim>\<open>selectedCategory\<close> is \<open>''''\<close> when no category is selected.
  \<^verbatim>\<open>filteredVulns\<close> is an array or, after \<^verbatim>\<open>setFilteredVulns(undefined)\<close>, \<open>None\<close>.
\<close>

record state =
  heap :: heap
  data :: "addr PatchTuesdayData option"
  selectedCategory :: string
  categories :: "string list"
  filteredVulns :: "addr option"
  showSummary :: bool
  cvssSort :: sort_dir
  patches :: grouped
  selected :: "string option"
  loading :: bool
  console :: "(string \<times> error) list"

text \<open>The state of a component that has just been mounted.\<close>

definition initial :: state where
  "initial =
     \<lparr> heap = [[]], data = None, selectedCategory = [], categories = [],
       filteredVulns = Some 0,
       showSummary = True, cvssSort = NoSort, patches = [], selected = None, loading = False,
       console = [] \<rparr>"

text \<open>Every address of the state is the address of an array.\<close>

definition wf_state :: "state \<Rightarrow> bool" where
  "wf_state st =
     ((case filteredVulns st of None \<Rightarrow> True | Some a \<Rightarrow> a < length (heap st))
      \<and> (case data st of
           None \<Rightarrow> True
         | Some d \<Rightarrow>
             (case vulnerabilities d of None \<Rightarrow> True | Some a \<Rightarrow> a < length (heap st))))"

subsection \<open>Promises\<close>

text \<open>
  A promise that has settled is an error (rejected) or a value (fulfilled), with the
  state at that moment. \<^verbatim>\<open>.then(f)\<close> runs \<open>f\<close> on a value and lets an error through,
  \<^verbatim>\<open>.catch(f)\<close> runs \<open>f\<close> on an error and lets a value through, \<^verbatim>\<open>.finally(f)\<close> runs \<open>f\<close>
  and keeps the settlement. A handler that throws rejects the promise it returns.
\<close>

type_synonym ('a, 's) promise = "(error + 'a) \<times> 's"

definition then_do :: "('a, 's) promise \<Rightarrow> ('a \<Rightarrow> 's \<Rightarrow> ('b, 's) promise) \<Rightarrow> ('b, 's) promise" where
  "then_do p f = (case p of (Inl e, st) \<Rightarrow> (Inl e, st) | (Inr x, st) \<Rightarrow> f x st)"

definition catch_do :: "('a, 's) promise \<Rightarrow> (error \<Rightarrow> 's \<Rightarrow> ('a, 's) promise) \<Rightarrow> ('a, 's) promise" where
  "catch_do p f = (case p of (Inl e, st) \<Rightarrow> f e st | (Inr x, st) \<Rightarrow> (Inr x, st))"

definition finally_do :: "('a, 's) promise \<Rightarrow> ('s \<Rightarrow> 's) \<Rightarrow> ('a, 's) promise" where
  "finally_do p f = (case p of (r, st) \<Rightarrow> (r, f st))"

text \<open>
  What \<^verbatim>\<open>fetch\<close> settles with: a rejection (no answer from the network), or a response
  with its flag \<^verbatim>\<open>ok\<close> and the settlement of \<^verbatim>\<open>res.json()\<close>, which rejects with a
  \<^verbatim>\<open>SyntaxError\<close> when the body is not JSON.
\<close>

datatype 'a response = Response (ok: bool) (json: "error + 'a")

subsection \<open>Loading the index\<close>

text \<open>
  The first effect:
  \<^verbatim>\<open>
    fetch(baseRawUrl + "index.json")
      .then((res) => { if (!res.ok) throw new Error("Failed to fetch index.json");
                       return res.json(); })
      .then((data: string[]) => { ...; setPatches(grouped); })
      .catch((e) => { console.error("Error loading index.json:", e); });
  \<close>
\<close>

definition indexEffect :: "(error + string list response) \<Rightarrow> state \<Rightarrow> (unit, state) promise" where
  "indexEffect fetched st =
     catch_do
       (then_do
          (then_do (fetched, st)
             (\<lambda>res st. if \<not> ok res then (Inl (Error ''Failed to fetch index.json''), st)
                       else (json res, st)))
          (\<lambda>entries st.
             case groupIndex entries of
               Inl e \<Rightarrow> (Inl e, st)
             | Inr grouped \<Rightarrow> (Inr (), st\<lparr>patches := grouped\<rparr>)))
       (\<lambda>e st. (Inr (), st\<lparr>console := console st @ [(''Error loading index.json:'', e)]\<rparr>))"

subsection \<open>Loading a month\<close>

text \<open>\<^verbatim>\<open>Array.from(new Set(xs))\<close>: the distinct elements, each at its first occurrence.\<close>

fun fromSet :: "'a list \<Rightarrow> 'a list" where
  "fromSet [] = []"
| "fromSet (x # xs) = x # filter (\<lambda>y. y \<noteq> x) (fromSet xs)"

text \<open>
  The handler of a month's dataset. The object made by \<^verbatim>\<open>res.json()\<close> enters the heap
  here, with a new array for its vulnerabilities when it has them. \<^verbatim>\<open>setData(json)\<close> is
  the first statement; \<^verbatim>\<open>Object.values(json.products)\<close> throws a \<^verbatim>\<open>TypeError\<close> when
  the body has no \<^verbatim>\<open>products\<close>, and the statements after it are not run then.
  \<^verbatim>\<open>.sort()\<close> without a comparator orders strings by their code units, which is the
  lexicographic order of \<^typ>\<open>string\<close>.
  \<^verbatim>\<open>
    setData(json);
    const cats = Array.from(
      new Set(Object.values(json.products).map((p) => p.category))).sort();
    setCategories(cats);
    setSelectedCategory("");
    setShowSummary(true);
  \<close>
\<close>

definition monthLoaded :: "(Vulnerability list) PatchTuesdayData \<Rightarrow> state \<Rightarrow> (unit, state) promise" where
  "monthLoaded body st =
     (let (v, h) =
            (case vulnerabilities body of
               None \<Rightarrow> (None, heap st)
             | Some vulns \<Rightarrow> (let (a, h) = alloc vulns (heap st) in (Some a, h)));
          st1 = st\<lparr> heap := h,
                   data := Some \<lparr>metadata = metadata body, products = products body,
                                 vulnerabilities = v\<rparr> \<rparr>
      in case products body of
           None \<Rightarrow> (Inl TypeError, st1)
         | Some ps \<Rightarrow>
             (Inr (),
              st1\<lparr> categories := sort (fromSet (map (\<lambda>p. category p) (map snd ps))),
                   selectedCategory := [],
                   showSummary := True \<rparr>))"

text \<open>
  The handler of a failure:
  \<^verbatim>\<open>
    setData(null);
    setCategories([]);
    console.error("Error loading patch content:", e);
  \<close>
\<close>

definition monthFailed :: "error \<Rightarrow> state \<Rightarrow> (unit, state) promise" where
  "monthFailed e st =
     (Inr (),
      st\<lparr> data := None, categories := [],
          console := console st @ [(''Error loading patch content:'', e)] \<rparr>)"

text \<open>
  The second effect, run when \<^verbatim>\<open>selected\<close> changes:
  \<^verbatim>\<open>
    if (!selected) return;
    setLoading(true);
    fetch(baseRawUrl + selected)
      .then((res) => { if (!res.ok) throw new Error(`Failed to fetch ${selected}`);
                       return res.json(); })
      .then((json: PatchTuesdayData) => { ... })
      .catch((e) => { ... })
      .finally(() => setLoading(false));
  \<close>
  \<open>fetched\<close> is what the fetch settles with. The result is the settlement of the whole
  chain and the state after it.
\<close>

definition monthEffect :: "(error + (Vulnerability list) PatchTuesdayData response) \<Rightarrow> state \<Rightarrow> (unit, state) promise" where
  "monthEffect fetched st =
     (case selected st of
        None \<Rightarrow> (Inr (), st)
      | Some file \<Rightarrow>
          if file = [] then (Inr (), st)
          else finally_do
                 (catch_do
                    (then_do
                       (then_do (fetched, st\<lparr>loading := True\<rparr>)
                          (\<lambda>res st. if \<not> ok res then (Inl (Error (''Failed to fetch '' @ file)), st)
                                    else (json res, st)))
                       monthLoaded)
                    monthFailed)
                 (\<lambda>st. st\<lparr>loading := False\<rparr>))"

subsection \<open>Filtering and sorting\<close>

text \<open>
  The callback of the filter:
  \<^verbatim>\<open>(vuln) => vuln.affected_products.some((prod) => prod.category === selectedCategory)\<close>.
\<close>

definition inCategory :: "string \<Rightarrow> Vulnerability \<Rightarrow> bool" where
  "inCategory selectedCat vuln =
     list_ex (\<lambda>prod. category prod = selectedCat) (affected_products vuln)"

text \<open>\<^verbatim>\<open>a.cvss_score ?? 0\<close>.\<close>

definition scoreOrZero :: "Vulnerability \<Rightarrow> rat" where
  "scoreOrZero a = (case cvss_score a of None \<Rightarrow> 0 | Some s \<Rightarrow> s)"

text \<open>
  The comparator of the sort:
  \<^verbatim>\<open>
    const aScore = a.cvss_score ?? 0;
    const bScore = b.cvss_score ?? 0;
    return cvssSort === 'desc' ? bScore - aScore : aScore - bScore;
  \<close>
\<close>

definition compareScores :: "sort_dir \<Rightarrow> Vulnerability \<Rightarrow> Vulnerability \<Rightarrow> error + rat" where
  "compareScores dir a b =
     (let aScore = scoreOrZero a; bScore = scoreOrZero b
      in Inr (if dir = Desc then bScore - aScore else aScore - bScore))"

text \<open>
  The third effect, run when the dataset, the category or the sort direction change:
  \<^verbatim>\<open>
    if (!data) return;
    let vulns = !selectedCategory
      ? data.vulnerabilities
      : data.vulnerabilities.filter(...);
    if (cvssSort) {
      vulns = [...vulns].sort(...);
    }
    setFilteredVulns(vulns);
  \<close>
  \<^verbatim>\<open>filter\<close> and the spread \<^verbatim>\<open>[...vulns]\<close> make a new array, \<^verbatim>\<open>sort\<close> sorts the array
  it is called on, in place, and returns it. When the dataset has no
  \<^verbatim>\<open>vulnerabilities\<close>, the call of \<^verbatim>\<open>filter\<close> and the spread are \<^verbatim>\<open>TypeError\<close>s.
\<close>

definition filterEffect :: "state \<Rightarrow> error + state" where
  "filterEffect st =
     (case data st of
        None \<Rightarrow> Inr st
      | Some d \<Rightarrow>
          (case (if selectedCategory st = [] then Inr (vulnerabilities d, heap st)
                 else (case vulnerabilities d of
                         None \<Rightarrow> Inl TypeError
                       | Some src \<Rightarrow>
                           (let (a, h) = alloc (filter (inCategory (selectedCategory st))
                                                  (heap st ! src)) (heap st)
                            in Inr (Some a, h)))) of
             Inl e \<Rightarrow> Inl e
           | Inr (vulns, h1) \<Rightarrow>
               if cvssSort st \<noteq> NoSort
               then (case vulns of
                       None \<Rightarrow> Inl TypeError
                     | Some v \<Rightarrow>
                         (let (copy, h2) = alloc (h1 ! v) h1
                          in case js_sort (compareScores (cvssSort st)) (h2 ! copy) of
                               Inl e \<Rightarrow> Inl e
                             | Inr ordered \<Rightarrow>
                                 Inr (st\<lparr>heap := h2[copy := ordered],
                                         filteredVulns := Some copy\<rparr>)))
               else Inr (st\<lparr>heap := h1, filteredVulns := vulns\<rparr>)))"

subsection \<open>Rendering the panel\<close>


section \<open>The earlier text viewer\<close>

text \<open>
  \<^verbatim>\<open>src/app/page.tsx\<close> is an earlier form of the page, for months published as text
  files. Its two effects are embedded here for comparison. Its index handler has no check
  of the extension, and its comparator removes \<^verbatim>\<open>".txt"\<close>:
  \<^verbatim>\<open>
    data.forEach((file) => {
      const year = file.split("-")[0];
      if (!grouped[year]) grouped[year] = [];
      grouped[year].push(file);
    });
  \<close>
\<close>

definition addFile_txt :: "grouped \<Rightarrow> string \<Rightarrow> error + grouped" where
  "addFile_txt grouped file =
     (let year = yearOf file in
      case map_of grouped year of
        Some files \<Rightarrow> Inr (push year file grouped)
      | None \<Rightarrow>
          if year \<in> set Object_prototype then Inl TypeError
          else Inr (grouped @ [(year, [file])]))"

definition monthOf_txt :: "string \<Rightarrow> error + string" where
  "monthOf_txt a =
     (case js_split CHR ''-'' a of
        _ # m # _ \<Rightarrow> Inr (js_replace ''.txt'' [] m)
      | _ \<Rightarrow> Inl TypeError)"

definition compareMonths_txt :: "string \<Rightarrow> string \<Rightarrow> error + int" where
  "compareMonths_txt a b =
     (case monthOf_txt a of
        Inl e \<Rightarrow> Inl e
      | Inr monthA \<Rightarrow>
          (case monthOf_txt b of
             Inl e \<Rightarrow> Inl e
           | Inr monthB \<Rightarrow> Inr (indexOf MONTH_ORDER monthA - indexOf MONTH_ORDER monthB)))"

fun sortGroups_txt :: "grouped \<Rightarrow> error + grouped" where
  "sortGroups_txt [] = Inr []"
| "sortGroups_txt ((year, files) # rest) =
     (case js_sort compareMonths_txt files of
        Inl e \<Rightarrow> Inl e
      | Inr files' \<Rightarrow>
          (case sortGroups_txt rest of
             Inl e \<Rightarrow> Inl e
           | Inr rest' \<Rightarrow> Inr ((year, files') # rest')))"

definition groupIndex_txt :: "string list \<Rightarrow> error + grouped" where
  "groupIndex_txt entries =
     (case forEach addFile_txt entries [] of
        Inl e \<Rightarrow> Inl e
      | Inr grouped \<Rightarrow> sortGroups_txt grouped)"

text \<open>
  The state of the text viewer, and its effect for the selected month:
  \<^verbatim>\<open>
    if (selected) {
      fetch(baseRawUrl + selected)
        .then((res) => { if (!res.ok) throw new Error(`Failed to fetch ${selected}`);
                         return res.text(); })
        .then(setContent)
        .catch((e) => { console.error("Error loading patch content:", e);
                        setContent("Failed to load content."); });
    }
  \<close>
  The second component of a response is the settlement of \<^verbatim>\<open>res.text()\<close> here.
\<close>

record txt_state =
  txt_patches :: grouped
  txt_selected :: "string option"
  txt_content :: string
  txt_console :: "(string \<times> error) list"

definition contentEffect :: "(error + string response) \<Rightarrow> txt_state \<Rightarrow> (unit, txt_state) promise" where
  "contentEffect fetched st =
     (case txt_selected st of
        None \<Rightarrow> (Inr (), st)
      | Some file \<Rightarrow>
          if file = [] then (Inr (), st)
          else catch_do
                 (then_do
                    (then_do (fetched, st)
                       (\<lambda>res st. if \<not> ok res then (Inl (Error (''Failed to fetch '' @ file)), st)
                                 else (json res, st)))
                    (\<lambda>text st. (Inr (), st\<lparr>txt_content := text\<rparr>)))
                 (\<lambda>e st. (Inr (),
                            st\<lparr> txt_console := txt_console st @ [(''Error loading patch content:'', e)],
                                txt_content := ''Failed to load content.'' \<rparr>)))"

section \<open>A small dataset\<close>

text \<open>
  Three records and a state in which they are loaded, for the closed instances of the
  theorems below: a record of the category Mariner without a score, a Windows record
  scored 5.0, and a record of both categories scored 9.8.
\<close>

definition recMariner :: Vulnerability where
  "recMariner =
     \<lparr> cve = ''CVE-2024-0001'', vuln_title = ''N/A'', cvss_score = None, exploited = False,
       exploitation_likely = True, threat_types = [''Spoofing''],
       affected_products = [\<lparr>name = ''Azure Linux 3.0'', category = ''Mariner'', product_id = ''12''\<rparr>] \<rparr>"

definition recWindows :: Vulnerability where
  "recWindows =
     \<lparr> cve = ''CVE-2024-0002'', vuln_title = ''Kernel'', cvss_score = Some 5, exploited = False,
       exploitation_likely = False, threat_types = [''Elevation of Privilege''],
       affected_products = [\<lparr>name = ''Windows 11'', category = ''Windows'', product_id = ''7''\<rparr>] \<rparr>"

definition recBoth :: Vulnerability where
  "recBoth =
     \<lparr> cve = ''CVE-2024-0003'', vuln_title = ''OpenSSH'', cvss_score = Some (49 / 5),
       exploited = True, exploitation_likely = False,
       threat_types = [''Remote Code Execution'', ''Spoofing''],
       affected_products =
         [\<lparr>name = ''Azure Linux 3.0'', category = ''Mariner'', product_id = ''12''\<rparr>,
          \<lparr>name = ''Windows 11'', category = ''Windows'', product_id = ''7''\<rparr>] \<rparr>"

definition monthBody :: "(Vulnerability list) PatchTuesdayData" where
  "monthBody =
     \<lparr> metadata =
         Some \<lparr> title = ''January 2024'', tracking_id = ''2024-Jan'',
                release_date = ''2024-01-09'', current_release_date = ''2024-01-09'',
                total_vulnerabilities = 3, processed_date = ''2024-01-10'',
                script_version = ''1.0'' \<rparr>,
       products =
         Some [(''7'', \<lparr>name = ''Windows 11'', category = ''Windows''\<rparr>),
               (''12'', \<lparr>name = ''Azure Linux 3.0'', category = ''Mariner''\<rparr>),
               (''8'', \<lparr>name = ''Windows 10'', category = ''Windows''\<rparr>)],
       vulnerabilities = Some [recMariner, recWindows, recBoth] \<rparr>"

definition monthShown :: state where
  "monthShown =
     initial
       \<lparr> heap := [[], [recMariner, recWindows, recBoth]],
         data := Some \<lparr>metadata = metadata monthBody, products = products monthBody,
                       vulnerabilities = Some 1\<rparr>,
         categories := [''Mariner'', ''Windows''],
         selected := Some ''2024-Jan.json'' \<rparr>"

section \<open>Severity classifier: verification\<close>

text \<open>
  C2. The severity classifier is a total function into the five labels None, Low, Medium,
  High and Critical: an absent score and the score 0 give None, any other score up to
  3.9 gives Low, a score above 3.9 and up to 6.9 gives Medium, a score above 6.9 and up
  to 8.9 gives High, and a score above 8.9 gives Critical. At the boundary values:
  null and 0 give None, 3.9 gives Low, 4.0 and 6.9 give Medium, 7.0 and 8.9 give High,
  9.0 gives Critical.
\<close>

theorem getCvssSeverity_rule:
  "getCvssSeverity score \<in> {''None'', ''Low'', ''Medium'', ''High'', ''Critical''}
   \<and> (getCvssSeverity score = ''None'' \<longleftrightarrow> score = None \<or> score = Some 0)
   \<and> (getCvssSeverity score = ''Low'' \<longleftrightarrow> (\<exists>s. score = Some s \<and> s \<noteq> 0 \<and> s \<le> 39 / 10))
   \<and> (getCvssSeverity score = ''Medium'' \<longleftrightarrow> (\<exists>s. score = Some s \<and> 39 / 10 < s \<and> s \<le> 69 / 10))
   \<and> (getCvssSeverity score = ''High'' \<longleftrightarrow> (\<exists>s. score = Some s \<and> 69 / 10 < s \<and> s \<le> 89 / 10))
   \<and> (getCvssSeverity score = ''Critical'' \<longleftrightarrow> (\<exists>s. score = Some s \<and> 89 / 10 < s))
   \<and> getCvssSeverity None = ''None''
   \<and> getCvssSeverity (Some 0) = ''None''
   \<and> getCvssSeverity (Some (39 / 10)) = ''Low''
   \<and> getCvssSeverity (Some 4) = ''Medium''
   \<and> getCvssSeverity (Some (69 / 10)) = ''Medium''
   \<and> getCvssSeverity (Some 7) = ''High''
   \<and> getCvssSeverity (Some (89 / 10)) = ''High''
   \<and> getCvssSeverity (Some 9) = ''Critical''"
  by (cases score) (auto simp: getCvssSeverity_def)

theorem getCvssSeverity_rule_witness:
  "getCvssSeverity (Some (-1)) = ''Low'' \<and> getCvssSeverity (Some (53 / 10)) = ''Medium''"
  using getCvssSeverity_rule [of "Some (-1)"] getCvssSeverity_rule [of "Some (53 / 10)"]
  by (simp add: getCvssSeverity_def)

section \<open>Doubles: verification\<close>

lemma pow2_pos: "0 < pow2 e"
  by (simp add: pow2_def)

lemma pow2_nat: "pow2 (int n) = 2 ^ n"
  by (simp add: pow2_def)

lemma pow2_neg_nat: "pow2 (- int n) = 1 / 2 ^ n"
  by (cases n) (simp_all add: pow2_def nat_add_distrib)

text \<open>\<open>ilog2\<close> is the integer part of the logarithm to the base 2.\<close>

lemma floorlog2_bounds:
  assumes "0 < n"
  shows "0 < floorlog 2 n" and "(2::rat) ^ (floorlog 2 n - 1) \<le> of_nat n"
    and "rat_of_nat n + 1 \<le> 2 ^ floorlog 2 n"
proof -
  from floorlog_bounds [OF assms, of 2]
  have lo: "2 ^ (floorlog 2 n - 1) \<le> n" and hi: "n < 2 ^ floorlog 2 n"
    by simp_all
  from assms show "0 < floorlog 2 n"
    using floorlog_eq_zero_iff [of 2 n] by auto
  from lo have "rat_of_nat (2 ^ (floorlog 2 n - 1)) \<le> rat_of_nat n"
    by (simp only: of_nat_le_iff)
  then show "(2::rat) ^ (floorlog 2 n - 1) \<le> of_nat n" by simp
  from hi have "Suc n \<le> 2 ^ floorlog 2 n" by simp
  then have "rat_of_nat (Suc n) \<le> rat_of_nat (2 ^ floorlog 2 n)"
    by (simp only: of_nat_le_iff)
  then show "rat_of_nat n + 1 \<le> 2 ^ floorlog 2 n" by simp
qed

lemma ilog2_bounds:
  assumes "0 < x"
  shows "pow2 (ilog2 x) \<le> x \<and> x < pow2 (ilog2 x + 1)"
proof (cases "1 \<le> x")
  case True
  define n where "n = nat \<lfloor>x\<rfloor>"
  define w where "w = floorlog 2 n"
  from True have fl: "1 \<le> \<lfloor>x\<rfloor>" by simp
  then have n: "0 < n" by (simp add: n_def)
  from fl have nf: "rat_of_nat n = of_int \<lfloor>x\<rfloor>" by (simp add: n_def)
  have nx: "rat_of_nat n \<le> x" unfolding nf by (rule of_int_floor_le)
  have xn: "x < rat_of_nat n + 1" unfolding nf by linarith
  note b = floorlog2_bounds [OF n, folded w_def]
  from True have "ilog2 x = int w - 1" by (simp add: ilog2_def n_def w_def)
  with b(1) have il: "ilog2 x = int (w - 1)" and il1: "ilog2 x + 1 = int w"
    by simp_all
  from b(2) nx have lo: "pow2 (ilog2 x) \<le> x" unfolding il pow2_nat by (rule order_trans)
  from xn b(3) have hi: "x < pow2 (ilog2 x + 1)" unfolding il1 pow2_nat by (rule less_le_trans)
  from lo hi show ?thesis ..
next
  case False
  define y where "y = 1 / x"
  define n where "n = nat (\<lceil>y\<rceil> - 1)"
  define w where "w = floorlog 2 n"
  from False assms have y1: "1 < y" by (simp add: y_def)
  then have c2: "2 \<le> \<lceil>y\<rceil>" by linarith
  then have n: "0 < n" by (simp add: n_def)
  from c2 have nf: "rat_of_nat n = of_int \<lceil>y\<rceil> - 1" by (simp add: n_def)
  have ny: "rat_of_nat n < y" unfolding nf using ceiling_correct [of y] by simp
  have yn: "y \<le> rat_of_nat n + 1" unfolding nf by simp
  note b = floorlog2_bounds [OF n, folded w_def]
  from False have il: "ilog2 x = - int w" by (simp add: ilog2_def n_def w_def y_def)
  with b(1) have il1: "ilog2 x + 1 = - int (w - 1)" by simp
  from yn b(3) have "1 / x \<le> 2 ^ w" unfolding y_def by (rule order_trans)
  with assms have "1 \<le> 2 ^ w * x" by (simp add: pos_divide_le_eq)
  then have lo: "pow2 (ilog2 x) \<le> x" unfolding il pow2_neg_nat
    by (simp add: pos_divide_le_eq mult.commute)
  from b(2) ny have "2 ^ (w - 1) < 1 / x" unfolding y_def by (rule le_less_trans)
  with assms have "2 ^ (w - 1) * x < 1" by (simp add: pos_less_divide_eq)
  then have hi: "x < pow2 (ilog2 x + 1)" unfolding il1 pow2_neg_nat
    by (simp add: pos_less_divide_eq mult.commute)
  from lo hi show ?thesis ..
qed

text \<open>\<open>roundEven\<close> gives an integer that is nearest.\<close>

lemma roundEven_nearest: "\<bar>x - of_int (roundEven x)\<bar> \<le> 1 / 2"
proof -
  have "of_int \<lfloor>x\<rfloor> \<le> x" and "x < of_int \<lfloor>x\<rfloor> + 1" by linarith+
  then show ?thesis by (auto simp: roundEven_def Let_def)
qed

lemma roundEven_int: "roundEven (of_int n) = n"
  by (simp add: roundEven_def)

text \<open>The floor and the ceiling of a quotient of numerals, for the evaluation of \<open>toDouble\<close>.\<close>

lemma floor_rat_numeral_div:
  "\<lfloor>numeral a / numeral b :: rat\<rfloor> = numeral a div numeral b"
  using floor_divide_of_int_eq [of "numeral a" "numeral b", where ?'a = rat] by simp

lemma ceiling_rat_numeral_div:
  "\<lceil>numeral a / numeral b :: rat\<rceil> = - (- numeral a div numeral b)"
  using floor_divide_of_int_eq [of "- numeral a" "numeral b", where ?'a = rat]
  by (simp add: ceiling_def)

lemmas toDouble_eval =
  toDouble_def ilog2_def roundEven_def pow2_def compute_floorlog Let_def
  floor_rat_numeral_div ceiling_rat_numeral_div

lemma toDouble_zero: "toDouble 0 = Some 0"
  by (simp add: toDouble_def)

text \<open>9.5, 7, 16.5 and 8.25 are doubles; 8.2 and 7.4 are not.\<close>

lemma toDouble_exact_values:
  "toDouble 7 = Some 7" "toDouble (19 / 2) = Some (19 / 2)"
  "toDouble (33 / 2) = Some (33 / 2)" "toDouble (33 / 4) = Some (33 / 4)"
  "toDouble 14 = Some 14"
  by (simp_all add: toDouble_eval)

lemma toDouble_rounded_values:
  "toDouble (41 / 5) = Some (2308094809027379 / 281474976710656)"
  "toDouble (37 / 5) = Some (4165829655317709 / 562949953421312)"
  "toDouble (14 + 2308094809027379 / 281474976710656) = Some (6248744482976563 / 281474976710656)"
  "toDouble (6248744482976563 / 281474976710656 / 3) = Some (8331659310635417 / 1125899906842624)"
  by (simp_all add: toDouble_eval)

text \<open>A sum whose summands and partial sums are all doubles is exact.\<close>

lemma foldl_js_add_exact:
  assumes "\<And>x. x \<in> set xs \<Longrightarrow> toDouble x = Some x"
    and "\<And>k. k \<le> length xs \<Longrightarrow> toDouble (a + sum_list (take k xs)) = Some (a + sum_list (take k xs))"
  shows "foldl (\<lambda>a b. js_add a b) (Some a) (map toDouble xs) = Some (a + sum_list xs)"
  using assms
proof (induction xs arbitrary: a)
  case Nil
  show ?case by simp
next
  case (Cons x xs)
  from Cons.prems(1) [of x] have x: "toDouble x = Some x" by simp
  from Cons.prems(2) [of 1] have ax: "toDouble (a + x) = Some (a + x)" by simp
  have step: "js_add (Some a) (toDouble x) = Some (a + x)"
    by (simp add: js_add_def x ax)
  have "foldl (\<lambda>a b. js_add a b) (Some (a + x)) (map toDouble xs) = Some (a + x + sum_list xs)"
  proof (rule Cons.IH)
    fix y assume "y \<in> set xs"
    then show "toDouble y = Some y" using Cons.prems(1) by simp
  next
    fix k assume "k \<le> length xs"
    then have "Suc k \<le> length (x # xs)" by simp
    from Cons.prems(2) [OF this]
    show "toDouble (a + x + sum_list (take k xs)) = Some (a + x + sum_list (take k xs))"
      by (simp add: add.assoc)
  qed
  with step show ?case by (simp add: add.assoc)
qed

text \<open>
  The error of a rounding: at most the fraction \<open>2 ^ - 53\<close> of the number, or \<open>2 ^ - 1075\<close>
  where the doubles are \<open>2 ^ - 1074\<close> apart. A number below \<open>2 ^ 1023\<close> is rounded to a
  finite double.
\<close>

lemma pow2_power_int: "pow2 e = power_int 2 e"
  by (simp add: pow2_def power_int_def power_one_over [symmetric] inverse_eq_divide)

lemma pow2_diff: "pow2 (k - int n) = pow2 k / 2 ^ n"
  by (simp add: pow2_power_int power_int_diff)

lemma round_scaled_error:
  assumes "x \<noteq> 0"
  defines "p \<equiv> pow2 (max (ilog2 \<bar>x\<bar> - 52) (- 1074))"
  shows "\<bar>of_int (roundEven (\<bar>x\<bar> / p)) * p - \<bar>x\<bar>\<bar> \<le> \<bar>x\<bar> / 2 ^ 53 + 1 / 2 ^ 1075"
proof -
  define r where "r = roundEven (\<bar>x\<bar> / p)"
  have p: "0 < p" unfolding p_def by (rule pow2_pos)
  have "\<bar>of_int r * p - \<bar>x\<bar>\<bar> = \<bar>\<bar>x\<bar> / p - of_int r\<bar> * p"
  proof -
    from p have "of_int r * p - \<bar>x\<bar> = - ((\<bar>x\<bar> / p - of_int r) * p)"
      by (simp add: left_diff_distrib)
    then have "\<bar>of_int r * p - \<bar>x\<bar>\<bar> = \<bar>(\<bar>x\<bar> / p - of_int r) * p\<bar>"
      by (simp only: abs_minus)
    also have "\<dots> = \<bar>\<bar>x\<bar> / p - of_int r\<bar> * \<bar>p\<bar>"
      by (rule abs_mult)
    also from p have "\<bar>p\<bar> = p" by simp
    finally show ?thesis .
  qed
  also have "\<dots> \<le> 1 / 2 * p"
    using roundEven_nearest [of "\<bar>x\<bar> / p"] p unfolding r_def
    by (intro mult_right_mono) simp_all
  finally have half: "\<bar>of_int r * p - \<bar>x\<bar>\<bar> \<le> p / 2" by simp
  have "p / 2 \<le> \<bar>x\<bar> / 2 ^ 53 + 1 / 2 ^ 1075"
  proof (cases "ilog2 \<bar>x\<bar> - 52 \<le> - 1074")
    case True
    then have "max (ilog2 \<bar>x\<bar> - 52) (- 1074) = - int 1074" by simp
    then have "p = 1 / 2 ^ 1074" unfolding p_def by (simp only: pow2_neg_nat)
    then have "p / 2 = 1 / 2 ^ 1075" by simp
    moreover have "0 \<le> \<bar>x\<bar> / 2 ^ 53" by simp
    ultimately show ?thesis by linarith
  next
    case False
    then have "max (ilog2 \<bar>x\<bar> - 52) (- 1074) = ilog2 \<bar>x\<bar> - int 52" by simp
    then have "p = pow2 (ilog2 \<bar>x\<bar>) / 2 ^ 52" unfolding p_def by (simp only: pow2_diff)
    moreover from \<open>x \<noteq> 0\<close> have "pow2 (ilog2 \<bar>x\<bar>) \<le> \<bar>x\<bar>"
      using ilog2_bounds [of "\<bar>x\<bar>"] by simp
    ultimately have "p \<le> \<bar>x\<bar> / 2 ^ 52" by (simp add: divide_right_mono)
    then have "p / 2 \<le> \<bar>x\<bar> / 2 ^ 53" by simp
    then show ?thesis by simp
  qed
  with half show ?thesis unfolding r_def by (rule order_trans)
qed

lemma toDouble_error:
  assumes "toDouble x = Some y"
  shows "\<bar>y - x\<bar> \<le> \<bar>x\<bar> / 2 ^ 53 + 1 / 2 ^ 1075"
proof (cases "x = 0")
  case True
  with assms show ?thesis by (simp add: toDouble_def)
next
  case False
  define p where "p = pow2 (max (ilog2 \<bar>x\<bar> - 52) (- 1074))"
  define r where "r = roundEven (\<bar>x\<bar> / p)"
  from assms False have y: "y = sgn x * (of_int r * p)"
    by (simp add: toDouble_def Let_def p_def r_def split: if_splits)
  have "\<bar>y - x\<bar> = \<bar>sgn x * (of_int r * p) - sgn x * \<bar>x\<bar>\<bar>"
    unfolding y by (simp add: sgn_mult_abs)
  also have "\<dots> = \<bar>sgn x\<bar> * \<bar>of_int r * p - \<bar>x\<bar>\<bar>"
    by (simp only: right_diff_distrib [symmetric] abs_mult)
  also from False have "\<dots> = \<bar>of_int r * p - \<bar>x\<bar>\<bar>"
    by (simp add: abs_sgn_eq)
  also have "\<dots> \<le> \<bar>x\<bar> / 2 ^ 53 + 1 / 2 ^ 1075"
    unfolding r_def p_def by (rule round_scaled_error [OF False])
  finally show ?thesis .
qed

lemma toDouble_finite:
  assumes "\<bar>x\<bar> < 2 ^ 1023"
  shows "\<exists>y. toDouble x = Some y"
proof (cases "x = 0")
  case True
  then show ?thesis by (simp add: toDouble_def)
next
  case False
  define p where "p = pow2 (max (ilog2 \<bar>x\<bar> - 52) (- 1074))"
  define y where "y = of_int (roundEven (\<bar>x\<bar> / p)) * p"
  from round_scaled_error [OF False]
  have "\<bar>y - \<bar>x\<bar>\<bar> \<le> \<bar>x\<bar> / 2 ^ 53 + 1 / 2 ^ 1075"
    by (simp only: y_def p_def)
  then have "y \<le> \<bar>x\<bar> + \<bar>x\<bar> / 2 ^ 53 + 1 / 2 ^ 1075" by linarith
  also from assms have "\<dots> < 2 ^ 1023 + 2 ^ 1023 / 2 ^ 53 + 1 / 2 ^ 1075"
    by (simp add: add_strict_mono divide_strict_right_mono)
  also have "\<dots> \<le> (2 :: rat) ^ 1024" by simp
  finally have "\<not> pow2 1024 \<le> y"
    using pow2_nat [of 1024] by simp
  with False show ?thesis
    by (simp add: toDouble_def Let_def y_def p_def)
qed

lemma round_step:
  fixes a x x' a' h :: rat
  assumes "\<bar>x' - x\<bar> \<le> \<bar>x\<bar> / 2 ^ 53 + h" and "\<bar>a' - (a + x')\<bar> \<le> \<bar>a + x'\<bar> / 2 ^ 53 + h"
    and "0 \<le> h"
  shows "\<bar>a' - (a + x)\<bar> \<le> ((1 + 1 / 2 ^ 53)\<^sup>2 - 1) * (\<bar>a\<bar> + \<bar>x\<bar>) + 3 * h"
proof -
  have "\<bar>a + x'\<bar> \<le> \<bar>a\<bar> + \<bar>x\<bar> + \<bar>x' - x\<bar>" by linarith
  with assms(1) have "\<bar>a + x'\<bar> \<le> \<bar>a\<bar> + \<bar>x\<bar> + (\<bar>x\<bar> / 2 ^ 53 + h)" by linarith
  then have "\<bar>a + x'\<bar> / 2 ^ 53 \<le> (\<bar>a\<bar> + \<bar>x\<bar> + (\<bar>x\<bar> / 2 ^ 53 + h)) / 2 ^ 53"
    by (rule divide_right_mono) simp
  with assms(2) have d2: "\<bar>a' - (a + x')\<bar> \<le> (\<bar>a\<bar> + \<bar>x\<bar> + (\<bar>x\<bar> / 2 ^ 53 + h)) / 2 ^ 53 + h"
    by linarith
  have "\<bar>a' - (a + x)\<bar> \<le> \<bar>a' - (a + x')\<bar> + \<bar>x' - x\<bar>" by linarith
  with d2 assms(1)
  have "\<bar>a' - (a + x)\<bar> \<le> (\<bar>a\<bar> + \<bar>x\<bar> + (\<bar>x\<bar> / 2 ^ 53 + h)) / 2 ^ 53 + h + (\<bar>x\<bar> / 2 ^ 53 + h)"
    by linarith
  also have "\<dots> \<le> ((1 + 1 / 2 ^ 53)\<^sup>2 - 1) * (\<bar>a\<bar> + \<bar>x\<bar>) + 3 * h"
  proof -
    define A where "A = \<bar>a\<bar>"
    define X where "X = \<bar>x\<bar>"
    have "0 \<le> A" "0 \<le> X" by (simp_all add: A_def X_def)
    with assms(3) show ?thesis
      unfolding A_def [symmetric] X_def [symmetric]
      by (simp add: power2_eq_square field_simps)
  qed
  finally show ?thesis .
qed

lemma foldl_js_add_None: "foldl (\<lambda>a b. js_add a b) None ys = None"
  by (induction ys) (simp_all add: js_add_def)

text \<open>
  The error of a sum of \<open>n\<close> numbers that is computed with doubles, from the start value
  \<open>a\<close>: each number is rounded, and each of the \<open>n\<close> sums.
\<close>

lemma foldl_js_add_error:
  assumes "foldl (\<lambda>a b. js_add a b) (Some a) (map toDouble xs) = Some s"
  shows "\<bar>s - (a + sum_list xs)\<bar>
     \<le> ((1 + 1 / 2 ^ 53) ^ (2 * length xs) - 1) * (\<bar>a\<bar> + (\<Sum>x\<leftarrow>xs. \<bar>x\<bar>))
       + 3 * of_nat (length xs) * (1 + 1 / 2 ^ 53) ^ (2 * length xs) / 2 ^ 1075"
  using assms
proof (induction xs arbitrary: a)
  case Nil
  then show ?case by simp
next
  case (Cons x xs)
  define h :: rat where "h = 1 / 2 ^ 1075"
  define g :: rat where "g = 1 + 1 / 2 ^ 53"
  define c :: rat where "c = g\<^sup>2 - 1"
  define m where "m = length xs"
  define G where "G = g ^ (2 * m)"
  define A where "A = (\<Sum>x\<leftarrow>xs. \<bar>x\<bar>)"
  define B where "B = \<bar>a\<bar> + \<bar>x\<bar>"
  have h: "0 \<le> h" by (simp add: h_def)
  have g: "1 \<le> g" by (simp add: g_def)
  then have G: "1 \<le> G" unfolding G_def by (rule one_le_power)
  from g have "1 \<le> g\<^sup>2" by (rule one_le_power)
  then have c: "0 \<le> c" by (simp add: c_def)
  have A: "0 \<le> A" unfolding A_def by (rule sum_list_nonneg) auto
  have B: "0 \<le> B" by (simp add: B_def)
  have next_power: "g ^ (2 * length (x # xs)) = G * (c + 1)"
    by (simp add: G_def c_def m_def power2_eq_square)
  from Cons.prems
  have run: "foldl (\<lambda>a b. js_add a b) (js_add (Some a) (toDouble x)) (map toDouble xs) = Some s"
    by simp
  obtain x' where x': "toDouble x = Some x'"
  proof (cases "toDouble x")
    case None
    then have "js_add (Some a) (toDouble x) = None" by (simp add: js_add_def)
    with run show ?thesis by (simp only: foldl_js_add_None) simp
  next
    case (Some y)
    then show ?thesis by (rule that)
  qed
  obtain a' where a': "toDouble (a + x') = Some a'"
  proof (cases "toDouble (a + x')")
    case None
    with x' have "js_add (Some a) (toDouble x) = None" by (simp add: js_add_def)
    with run show ?thesis by (simp only: foldl_js_add_None) simp
  next
    case (Some y)
    then show ?thesis by (rule that)
  qed
  from x' a' have "js_add (Some a) (toDouble x) = Some a'" by (simp add: js_add_def)
  with run
  have "foldl (\<lambda>a b. js_add a b) (Some a') (map toDouble xs) = Some s"
    by (simp only:)
  from Cons.IH [OF this]
  have ih: "\<bar>s - (a' + sum_list xs)\<bar> \<le> (G - 1) * (\<bar>a'\<bar> + A) + 3 * of_nat m * G * h"
    by (simp add: G_def g_def A_def m_def h_def)
  from toDouble_error [OF x'] have e1: "\<bar>x' - x\<bar> \<le> \<bar>x\<bar> / 2 ^ 53 + h"
    by (simp only: h_def)
  from toDouble_error [OF a'] have e2: "\<bar>a' - (a + x')\<bar> \<le> \<bar>a + x'\<bar> / 2 ^ 53 + h"
    by (simp only: h_def)
  from round_step [OF e1 e2 h] have d: "\<bar>a' - (a + x)\<bar> \<le> c * B + 3 * h"
    by (simp only: c_def g_def B_def)
  have "\<bar>a'\<bar> \<le> \<bar>a\<bar> + \<bar>x\<bar> + \<bar>a' - (a + x)\<bar>" by linarith
  with d have "\<bar>a'\<bar> \<le> B + (c * B + 3 * h)" unfolding B_def by linarith
  then have "\<bar>a'\<bar> + A \<le> (c + 1) * B + 3 * h + A" by (simp add: algebra_simps)
  with G have "(G - 1) * (\<bar>a'\<bar> + A) \<le> (G - 1) * ((c + 1) * B + 3 * h + A)"
    by (intro mult_left_mono) simp_all
  with ih have ih': "\<bar>s - (a' + sum_list xs)\<bar>
      \<le> (G - 1) * ((c + 1) * B + 3 * h + A) + 3 * of_nat m * G * h"
    by linarith
  have "\<bar>s - (a + sum_list (x # xs))\<bar> \<le> \<bar>s - (a' + sum_list xs)\<bar> + \<bar>a' - (a + x)\<bar>"
    by simp
  with ih' d have "\<bar>s - (a + sum_list (x # xs))\<bar>
      \<le> (G - 1) * ((c + 1) * B + 3 * h + A) + 3 * of_nat m * G * h + (c * B + 3 * h)"
    by linarith
  also have "\<dots> = (G * (c + 1) - 1) * B + (G - 1) * A + 3 * (of_nat m + 1) * G * h"
    by (simp add: algebra_simps)
  also have "\<dots> \<le> (G * (c + 1) - 1) * B + (G * (c + 1) - 1) * A
      + 3 * (of_nat m + 1) * (G * (c + 1)) * h"
  proof -
    from G c have "0 \<le> G * c" by simp
    then have up: "G \<le> G * (c + 1)" by (simp add: algebra_simps)
    then have "G - 1 \<le> G * (c + 1) - 1" by simp
    from this A have one: "(G - 1) * A \<le> (G * (c + 1) - 1) * A"
      by (rule mult_right_mono)
    have "0 \<le> 3 * (rat_of_nat m + 1)" by simp
    with up have "3 * (of_nat m + 1) * G \<le> 3 * (of_nat m + 1) * (G * (c + 1))"
      by (rule mult_left_mono)
    from this h have two: "3 * (of_nat m + 1) * G * h \<le> 3 * (of_nat m + 1) * (G * (c + 1)) * h"
      by (rule mult_right_mono)
    from one two show ?thesis by linarith
  qed
  also have "\<dots> = (g ^ (2 * length (x # xs)) - 1) * (\<bar>a\<bar> + (\<Sum>y\<leftarrow>x # xs. \<bar>y\<bar>))
      + 3 * of_nat (length (x # xs)) * g ^ (2 * length (x # xs)) * h"
    unfolding next_power by (simp add: B_def A_def m_def algebra_simps)
  finally show ?case by (simp only: g_def h_def times_divide_eq_right mult_1_right)
qed

text \<open>
  The error of a mean of \<open>n\<close> numbers that is computed with doubles: the sum as above,
  and the rounding of the quotient.
\<close>

lemma js_mean_error:
  assumes "js_div (foldl (\<lambda>a b. js_add a b) (Some 0) (map toDouble xs)) (of_nat (length xs)) = Some q"
    and "xs \<noteq> []"
  shows "\<bar>q - sum_list xs / of_nat (length xs)\<bar>
     \<le> ((1 + 1 / 2 ^ 53) ^ (2 * length xs + 1) - 1) * ((\<Sum>x\<leftarrow>xs. \<bar>x\<bar>) / of_nat (length xs))
       + (1 + 3 * (1 + 1 / 2 ^ 53) ^ (2 * length xs + 1)) / 2 ^ 1075"
proof -
  define h :: rat where "h = 1 / 2 ^ 1075"
  define g :: rat where "g = 1 + 1 / 2 ^ 53"
  define G where "G = g ^ (2 * length xs)"
  define N :: rat where "N = of_nat (length xs)"
  define A where "A = (\<Sum>x\<leftarrow>xs. \<bar>x\<bar>)"
  define S where "S = sum_list xs"
  define Eb where "Eb = (G - 1) * A + 3 * N * G * h"
  from assms(2) have N: "0 < N" by (simp add: N_def)
  have u: "1 / 2 ^ 53 = g - 1" by (simp add: g_def)
  have g: "1 \<le> g" by (simp add: g_def)
  from assms(1) obtain s where
    s: "foldl (\<lambda>a b. js_add a b) (Some 0) (map toDouble xs) = Some s"
    by (cases "foldl (\<lambda>a b. js_add a b) (Some 0) (map toDouble xs)") (simp_all add: js_div_def)
  with assms(1) N have q: "toDouble (s / N) = Some q"
    by (simp add: js_div_def N_def)
  from foldl_js_add_error [OF s] have E: "\<bar>s - S\<bar> \<le> Eb"
    by (simp add: Eb_def G_def g_def A_def N_def h_def S_def)
  from toDouble_error [OF q] have e3: "\<bar>q - s / N\<bar> \<le> \<bar>s / N\<bar> * (g - 1) + h"
    by (simp add: h_def u [symmetric])
  have SA: "\<bar>S\<bar> \<le> A" unfolding S_def A_def by (rule sum_list_abs)
  with E have "\<bar>s\<bar> \<le> A + Eb" by linarith
  with N have "\<bar>s\<bar> / N \<le> (A + Eb) / N" by (simp add: divide_right_mono)
  with N have "\<bar>s / N\<bar> \<le> (A + Eb) / N" by simp
  from this have "\<bar>s / N\<bar> * (g - 1) \<le> (A + Eb) / N * (g - 1)"
    by (rule mult_right_mono) (use g in simp)
  with e3 have one: "\<bar>q - s / N\<bar> \<le> (A + Eb) / N * (g - 1) + h" by linarith
  have "\<bar>s / N - S / N\<bar> = \<bar>s - S\<bar> / N"
    using N by (simp add: diff_divide_distrib [symmetric])
  also from E N have "\<dots> \<le> Eb / N" by (simp add: divide_right_mono)
  finally have two: "\<bar>s / N - S / N\<bar> \<le> Eb / N" .
  have "\<bar>q - S / N\<bar> \<le> \<bar>q - s / N\<bar> + \<bar>s / N - S / N\<bar>" by linarith
  with one two have "\<bar>q - S / N\<bar> \<le> (A + Eb) / N * (g - 1) + h + Eb / N" by linarith
  also from N have "\<dots> = (g * G - 1) * (A / N) + (1 + 3 * (g * G)) * h"
    by (simp add: Eb_def field_simps)
  finally have "\<bar>q - S / N\<bar> \<le> (g ^ (2 * length xs + 1) - 1) * (A / N)
      + (1 + 3 * g ^ (2 * length xs + 1)) * h"
    by (simp add: G_def)
  then show ?thesis
    by (simp only: g_def h_def S_def A_def N_def times_divide_eq_right mult_1_right)
qed

text \<open>No sum and no quotient leaves the doubles while the numbers are far below \<open>2 ^ 1023\<close>.\<close>

lemma rounding_power_bound:
  "m \<le> 2 ^ 52 \<Longrightarrow> (1 + 1 / 2 ^ 53 :: rat) ^ m \<le> 1 + of_nat m / 2 ^ 52"
proof (induction m)
  case 0
  show ?case by simp
next
  case (Suc m)
  from Suc.prems have "m \<le> 2 ^ 52" by simp
  then have "rat_of_nat m \<le> rat_of_nat (2 ^ 52)" by (simp only: of_nat_le_iff)
  then have m: "rat_of_nat m \<le> 2 ^ 52" by simp
  from Suc.IH \<open>m \<le> 2 ^ 52\<close> have ih: "(1 + 1 / 2 ^ 53 :: rat) ^ m \<le> 1 + of_nat m / 2 ^ 52"
    by simp
  have "(1 + 1 / 2 ^ 53 :: rat) ^ Suc m = (1 + 1 / 2 ^ 53) * (1 + 1 / 2 ^ 53) ^ m" by simp
  also from ih have "\<dots> \<le> (1 + 1 / 2 ^ 53) * (1 + of_nat m / 2 ^ 52)"
    by (rule mult_left_mono) simp
  also from m have "\<dots> \<le> 1 + of_nat (Suc m) / 2 ^ 52"
    by (simp add: field_simps)
  finally show ?case .
qed

lemma foldl_js_add_finite:
  assumes "(1 + 1 / 2 ^ 53) ^ (2 * length xs)
             * (\<bar>a\<bar> + (\<Sum>x\<leftarrow>xs. \<bar>x\<bar>) + 3 * of_nat (length xs) / 2 ^ 1075) < 2 ^ 1023"
  shows "\<exists>s. foldl (\<lambda>a b. js_add a b) (Some a) (map toDouble xs) = Some s"
  using assms
proof (induction xs arbitrary: a)
  case Nil
  show ?case by simp
next
  case (Cons x xs)
  define h :: rat where "h = 1 / 2 ^ 1075"
  define g :: rat where "g = 1 + 1 / 2 ^ 53"
  define c :: rat where "c = g\<^sup>2 - 1"
  define m where "m = length xs"
  define G where "G = g ^ (2 * m)"
  define A where "A = (\<Sum>x\<leftarrow>xs. \<bar>x\<bar>)"
  define B where "B = \<bar>a\<bar> + \<bar>x\<bar>"
  define M :: rat where "M = rat_of_nat m"
  have h: "0 \<le> h" by (simp add: h_def)
  have g: "1 \<le> g" by (simp add: g_def)
  then have G: "1 \<le> G" unfolding G_def by (rule one_le_power)
  from g have "1 \<le> g\<^sup>2" by (rule one_le_power)
  then have c: "0 \<le> c" by (simp add: c_def)
  have gc: "g \<le> c + 1"
    using g by (simp add: c_def power2_eq_square)
  have A: "0 \<le> A" unfolding A_def by (rule sum_list_nonneg) auto
  have B: "0 \<le> B" by (simp add: B_def)
  have M: "0 \<le> M" by (simp add: M_def)
  from Cons.prems have room: "G * (c + 1) * (B + A + 3 * (M + 1) * h) < 2 ^ 1023"
    by (simp add: G_def c_def m_def g_def h_def B_def A_def M_def power2_eq_square algebra_simps)
  let ?T = "B + A + 3 * (M + 1) * h"
  from A B M h have T: "0 \<le> ?T" by simp
  from G c have "1 * (c + 1) \<le> G * (c + 1)" by (intro mult_right_mono) simp_all
  then have Gc: "c + 1 \<le> G * (c + 1)" by simp
  with c have Gc1: "1 \<le> G * (c + 1)" by linarith
  from Gc1 T have "1 * ?T \<le> G * (c + 1) * ?T" by (rule mult_right_mono)
  with room have T_small: "?T < 2 ^ 1023" by simp
  from A M h have "\<bar>x\<bar> \<le> ?T" by (simp add: B_def)
  with T_small have "\<bar>x\<bar> < 2 ^ 1023" by simp
  then obtain x' where x': "toDouble x = Some x'"
    using toDouble_finite by blast
  from toDouble_error [OF x'] have e1: "\<bar>x' - x\<bar> \<le> \<bar>x\<bar> / 2 ^ 53 + h"
    by (simp only: h_def)
  have "\<bar>a + x'\<bar> \<le> \<bar>a\<bar> + \<bar>x\<bar> + \<bar>x' - x\<bar>" by linarith
  with e1 have "\<bar>a + x'\<bar> \<le> \<bar>a\<bar> + \<bar>x\<bar> + \<bar>x\<bar> / 2 ^ 53 + h" by linarith
  also have "\<dots> \<le> g * ?T"
  proof -
    have "\<bar>a\<bar> + \<bar>x\<bar> + \<bar>x\<bar> / 2 ^ 53 + h \<le> g * (B + h)"
      using h by (simp add: g_def B_def algebra_simps)
    also from A M h have "B + h \<le> ?T" by (simp add: algebra_simps)
    with g have "g * (B + h) \<le> g * ?T" by (intro mult_left_mono) simp_all
    finally show ?thesis .
  qed
  also from gc T have "\<dots> \<le> (c + 1) * ?T" by (rule mult_right_mono)
  also from Gc T have "\<dots> \<le> G * (c + 1) * ?T" by (rule mult_right_mono)
  also note room
  finally have "\<bar>a + x'\<bar> < 2 ^ 1023" .
  then obtain a' where a': "toDouble (a + x') = Some a'"
    using toDouble_finite by blast
  from toDouble_error [OF a'] have e2: "\<bar>a' - (a + x')\<bar> \<le> \<bar>a + x'\<bar> / 2 ^ 53 + h"
    by (simp only: h_def)
  from round_step [OF e1 e2 h] have d: "\<bar>a' - (a + x)\<bar> \<le> c * B + 3 * h"
    by (simp only: c_def g_def B_def)
  have "\<bar>a'\<bar> \<le> \<bar>a\<bar> + \<bar>x\<bar> + \<bar>a' - (a + x)\<bar>" by linarith
  with d have "\<bar>a'\<bar> \<le> B + (c * B + 3 * h)" unfolding B_def by linarith
  then have "\<bar>a'\<bar> + A + 3 * M * h \<le> (c + 1) * B + A + 3 * (M + 1) * h"
    by (simp add: algebra_simps)
  also have "\<dots> \<le> (c + 1) * ?T"
  proof -
    from c A have "0 \<le> c * A" by simp
    moreover from c M h have "0 \<le> c * (3 * (M + 1) * h)" by simp
    ultimately show ?thesis by (simp add: algebra_simps)
  qed
  finally have "\<bar>a'\<bar> + A + 3 * M * h \<le> (c + 1) * ?T" .
  with G have "G * (\<bar>a'\<bar> + A + 3 * M * h) \<le> G * ((c + 1) * ?T)"
    by (intro mult_left_mono) simp_all
  with room have "G * (\<bar>a'\<bar> + A + 3 * M * h) < 2 ^ 1023"
    by (simp add: mult.assoc)
  then have "(1 + 1 / 2 ^ 53) ^ (2 * length xs)
             * (\<bar>a'\<bar> + (\<Sum>x\<leftarrow>xs. \<bar>x\<bar>) + 3 * of_nat (length xs) / 2 ^ 1075) < 2 ^ 1023"
    by (simp only: G_def g_def A_def M_def m_def h_def times_divide_eq_right mult_1_right)
  from Cons.IH [OF this] obtain s where
    "foldl (\<lambda>a b. js_add a b) (Some a') (map toDouble xs) = Some s" ..
  moreover from x' a' have "js_add (Some a) (toDouble x) = Some a'" by (simp add: js_add_def)
  ultimately show ?case by simp
qed

text \<open>
  The mean of a sequence of scores, none above 10 in absolute value, in an array (which
  has fewer than \<open>2 ^ 32\<close> elements): the code computes a finite number, which differs
  from the arithmetic mean by \<open>(2 n + 1) / 2 ^ 48\<close> at most.
\<close>

lemma js_mean_scores:
  assumes "xs \<noteq> []" and "\<forall>x \<in> set xs. \<bar>x\<bar> \<le> 10" and "length xs < 2 ^ 32"
  shows "\<exists>q. js_div (foldl (\<lambda>a b. js_add a b) (Some 0) (map toDouble xs)) (of_nat (length xs))
             = Some q
     \<and> \<bar>q - sum_list xs / of_nat (length xs)\<bar> \<le> (2 * of_nat (length xs) + 1) / 2 ^ 48"
proof -
  define h :: rat where "h = 1 / 2 ^ 1075"
  define g :: rat where "g = 1 + 1 / 2 ^ 53"
  define n where "n = length xs"
  define N :: rat where "N = of_nat n"
  define A where "A = (\<Sum>x\<leftarrow>xs. \<bar>x\<bar>)"
  define S where "S = sum_list xs"
  define G2 where "G2 = g ^ (2 * n)"
  define G3 where "G3 = g ^ (2 * n + 1)"
  have h: "0 \<le> h" "h \<le> 1" by (simp_all add: h_def)
  from assms(1) have "0 < n" by (simp add: n_def)
  then have "rat_of_nat 1 \<le> rat_of_nat n" by (simp only: of_nat_le_iff)
  then have N1: "1 \<le> N" by (simp add: N_def)
  from assms(3) have "rat_of_nat n < rat_of_nat (2 ^ 32)"
    unfolding n_def by (simp only: of_nat_less_iff)
  then have N32: "N < 2 ^ 32" by (simp add: N_def)
  have A0: "0 \<le> A" unfolding A_def by (rule sum_list_nonneg) auto
  have "A \<le> (\<Sum>x\<leftarrow>xs. 10)"
    unfolding A_def using assms(2) by (intro sum_list_mono) simp
  then have A10: "A \<le> 10 * N" by (simp add: sum_list_triv N_def n_def)
  have SA: "\<bar>S\<bar> \<le> A" unfolding S_def A_def by (rule sum_list_abs)
  from assms(3) have "2 * n \<le> 2 ^ 52" and "2 * n + 1 \<le> 2 ^ 52" by (simp_all add: n_def)
  from rounding_power_bound [OF this(1)] rounding_power_bound [OF this(2)]
  have "G2 \<le> 1 + of_nat (2 * n) / 2 ^ 52" and "G3 \<le> 1 + of_nat (2 * n + 1) / 2 ^ 52"
    by (simp_all only: G2_def G3_def g_def)
  then have G2: "G2 \<le> 1 + 2 * N / 2 ^ 52" and G3: "G3 \<le> 1 + (2 * N + 1) / 2 ^ 52"
    by (simp_all add: N_def add.commute)
  have g: "1 \<le> g" by (simp add: g_def)
  then have G2_1: "1 \<le> G2" and G3_1: "1 \<le> G3"
    unfolding G2_def G3_def by (rule one_le_power)+
  from G2 N32 have G2_2: "G2 \<le> 2" by simp
  from N32 have "2 * N + 1 \<le> 2 ^ 52" by simp
  then have "(2 * N + 1) / 2 ^ 52 \<le> 1" by simp
  with G3 have G3_2: "G3 \<le> 2" by linarith
  have small: "G2 * (A + 3 * N * h) < 2 ^ 1023"
  proof -
    from A0 N1 h have "0 \<le> A + 3 * N * h" by simp
    with G2_2 have "G2 * (A + 3 * N * h) \<le> 2 * (A + 3 * N * h)"
      by (rule mult_right_mono)
    also from h N1 have "3 * N * h \<le> 3 * N * 1"
      by (intro mult_left_mono) simp_all
    with A10 have "2 * (A + 3 * N * h) \<le> 2 * (10 * N + 3 * N)" by simp
    also from N32 have "\<dots> < 2 ^ 1023" by simp
    finally show ?thesis .
  qed
  then have "(1 + 1 / 2 ^ 53) ^ (2 * length xs)
             * (\<bar>0\<bar> + (\<Sum>x\<leftarrow>xs. \<bar>x\<bar>) + 3 * of_nat (length xs) / 2 ^ 1075) < 2 ^ 1023"
    by (simp add: G2_def g_def A_def N_def n_def h_def)
  from foldl_js_add_finite [OF this] obtain s where
    s: "foldl (\<lambda>a b. js_add a b) (Some 0) (map toDouble xs) = Some s" ..
  from foldl_js_add_error [OF s] have "\<bar>s - S\<bar> \<le> (G2 - 1) * A + 3 * N * G2 * h"
    by (simp add: G2_def g_def A_def N_def n_def h_def S_def)
  with SA have "\<bar>s\<bar> \<le> A + ((G2 - 1) * A + 3 * N * G2 * h)" by linarith
  also have "\<dots> = G2 * (A + 3 * N * h)" by (simp add: algebra_simps)
  also note small
  finally have s_small: "\<bar>s\<bar> < 2 ^ 1023" .
  from N1 have "\<bar>s\<bar> / N \<le> \<bar>s\<bar> / 1" by (intro divide_left_mono) simp_all
  with N1 have "\<bar>s / N\<bar> \<le> \<bar>s\<bar>" by simp
  with s_small have "\<bar>s / N\<bar> < 2 ^ 1023" by simp
  then obtain q where q: "toDouble (s / N) = Some q"
    using toDouble_finite by blast
  with s assms(1) have run: "js_div (foldl (\<lambda>a b. js_add a b) (Some 0) (map toDouble xs))
      (of_nat (length xs)) = Some q"
    by (simp add: js_div_def N_def n_def)
  from js_mean_error [OF run assms(1)]
  have "\<bar>q - S / N\<bar> \<le> (G3 - 1) * (A / N) + (1 + 3 * G3) * h"
    by (simp add: G3_def g_def A_def N_def n_def h_def S_def)
  also have "\<dots> \<le> (2 * N + 1) / 2 ^ 52 * 10 + 7 * h"
  proof -
    from A10 N1 have "A / N \<le> 10" by (simp add: pos_divide_le_eq mult.commute)
    moreover from A0 N1 have "0 \<le> A / N" by simp
    moreover from G3 have "G3 - 1 \<le> (2 * N + 1) / 2 ^ 52" by linarith
    moreover from N1 have "0 \<le> (2 * N + 1) / 2 ^ 52" by simp
    ultimately have "(G3 - 1) * (A / N) \<le> (2 * N + 1) / 2 ^ 52 * 10"
      by (intro mult_mono) simp_all
    moreover from G3_2 have "1 + 3 * G3 \<le> 7" by simp
    from this h(1) have "(1 + 3 * G3) * h \<le> 7 * h" by (rule mult_right_mono)
    ultimately show ?thesis by linarith
  qed
  also have "\<dots> \<le> (2 * N + 1) / 2 ^ 48"
  proof -
    define t where "t = (2 * N + 1) / 2 ^ 52"
    have "7 * h \<le> 1 / 2 ^ 52" by (simp add: h_def)
    also from N1 have "1 / 2 ^ 52 \<le> t"
      unfolding t_def by (intro divide_right_mono) simp_all
    finally have "7 * h \<le> t" .
    moreover have "(2 * N + 1) / 2 ^ 48 = 16 * t" by (simp add: t_def)
    moreover from N1 have "0 \<le> t" by (simp add: t_def)
    ultimately show ?thesis unfolding t_def [symmetric] by linarith
  qed
  finally have "\<bar>q - sum_list xs / of_nat (length xs)\<bar> \<le> (2 * of_nat (length xs) + 1) / 2 ^ 48"
    by (simp only: S_def N_def n_def)
  with run show ?thesis by blast
qed

section \<open>Summary aggregator: verification\<close>

lemma count_scores:
  "length (filter P (List.map_filter (\<lambda>s. s) (map cvss_score vs)))
   = length (filter (\<lambda>v. \<exists>s. cvss_score v = Some s \<and> P s) vs)"
  by (induction vs) (auto split: option.splits)

lemma scores_of_scored:
  "List.map_filter (\<lambda>s. s) (map cvss_score vs)
   = map (\<lambda>v. the (cvss_score v)) (filter (\<lambda>v. cvss_score v \<noteq> None) vs)"
  by (induction vs) (auto split: option.splits)

lemma high_splits:
  "length (filter (\<lambda>v. \<exists>s. cvss_score v = Some s \<and> (7::rat) \<le> s) vs)
   = length (filter (\<lambda>v. \<exists>s. cvss_score v = Some s \<and> 9 \<le> s) vs)
     + length (filter (\<lambda>v. \<exists>s. cvss_score v = Some s \<and> 7 \<le> s \<and> s < 9) vs)"
  by (induction vs) auto

lemma byType_lookup:
  "type \<in> set VULN_TYPES \<Longrightarrow>
   map_of (byType (getSummaryStats vulns)) type
   = Some (length (filter (\<lambda>v. type \<in> set (threat_types v)) vulns))"
  by (simp add: getSummaryStats_def Let_def map_of_map_restrict)

text \<open>
  C1. For every sequence of records, the high count is the number of records that have a
  score of at least 7.0 and the critical count the number of records that have a score
  of at least 9.0; the two are independent threshold counts, every record counted as
  critical being counted as high too (the high count is the critical count plus the
  number of records scored from 7.0 to below 9.0). The per-type object has exactly the
  seven enumerated types as its keys, and the count of each is the number of records
  whose tags contain that type. For two records with the scores 9.5 and 7.0: high is 2,
  critical is 1 and the average is 8.25.
\<close>

theorem getSummaryStats_counts:
  "high (getSummaryStats vulns)
     = length (filter (\<lambda>v. \<exists>s. cvss_score v = Some s \<and> 7 \<le> s) vulns)
   \<and> critical (getSummaryStats vulns)
     = length (filter (\<lambda>v. \<exists>s. cvss_score v = Some s \<and> 9 \<le> s) vulns)
   \<and> high (getSummaryStats vulns)
     = critical (getSummaryStats vulns)
       + length (filter (\<lambda>v. \<exists>s. cvss_score v = Some s \<and> 7 \<le> s \<and> s < 9) vulns)
   \<and> map fst (byType (getSummaryStats vulns)) = VULN_TYPES
   \<and> length VULN_TYPES = 7 \<and> distinct VULN_TYPES
   \<and> (\<forall>type \<in> set VULN_TYPES.
        map_of (byType (getSummaryStats vulns)) type
        = Some (length (filter (\<lambda>v. type \<in> set (threat_types v)) vulns)))
   \<and> (\<forall>a b. cvss_score a = Some (19 / 2) \<and> cvss_score b = Some 7 \<longrightarrow>
        high (getSummaryStats [a, b]) = 2 \<and> critical (getSummaryStats [a, b]) = 1
        \<and> avg (getSummaryStats [a, b]) = Some (33 / 4))"
proof -
  have h: "high (getSummaryStats vulns)
     = length (filter (\<lambda>v. \<exists>s. cvss_score v = Some s \<and> 7 \<le> s) vulns)"
    by (simp add: getSummaryStats_def Let_def count_scores)
  have c: "critical (getSummaryStats vulns)
     = length (filter (\<lambda>v. \<exists>s. cvss_score v = Some s \<and> 9 \<le> s) vulns)"
    by (simp add: getSummaryStats_def Let_def count_scores)
  have hc: "high (getSummaryStats vulns)
     = critical (getSummaryStats vulns)
       + length (filter (\<lambda>v. \<exists>s. cvss_score v = Some s \<and> 7 \<le> s \<and> s < 9) vulns)"
    unfolding h c by (rule high_splits)
  have keys: "map fst (byType (getSummaryStats vulns)) = VULN_TYPES"
    by (simp add: getSummaryStats_def Let_def comp_def)
  have seven: "length VULN_TYPES = 7 \<and> distinct VULN_TYPES"
    by (simp add: VULN_TYPES_def)
  have types: "\<forall>type \<in> set VULN_TYPES.
        map_of (byType (getSummaryStats vulns)) type
        = Some (length (filter (\<lambda>v. type \<in> set (threat_types v)) vulns))"
    using byType_lookup by blast
  have two: "\<forall>a b. cvss_score a = Some (19 / 2) \<and> cvss_score b = Some 7 \<longrightarrow>
        high (getSummaryStats [a, b]) = 2 \<and> critical (getSummaryStats [a, b]) = 1
        \<and> avg (getSummaryStats [a, b]) = Some (33 / 4)"
    by (simp add: getSummaryStats_def Let_def js_div_def js_add_def toDouble_exact_values)
  from h c hc keys seven types two show ?thesis by blast
qed

theorem getSummaryStats_counts_witness:
  "high (getSummaryStats
      [\<lparr>cve = ''CVE-1'', vuln_title = ''a'', cvss_score = Some (19 / 2), exploited = True,
         exploitation_likely = False,
         threat_types = [''Spoofing'', ''Remote Code Execution'', ''Spoofing''],
         affected_products = []\<rparr>,
       \<lparr>cve = ''CVE-2'', vuln_title = ''b'', cvss_score = Some 7, exploited = False,
         exploitation_likely = False, threat_types = [''Spoofing''],
         affected_products = []\<rparr>]) = 2
   \<and> critical (getSummaryStats
      [\<lparr>cve = ''CVE-1'', vuln_title = ''a'', cvss_score = Some (19 / 2), exploited = True,
         exploitation_likely = False,
         threat_types = [''Spoofing'', ''Remote Code Execution'', ''Spoofing''],
         affected_products = []\<rparr>,
       \<lparr>cve = ''CVE-2'', vuln_title = ''b'', cvss_score = Some 7, exploited = False,
         exploitation_likely = False, threat_types = [''Spoofing''],
         affected_products = []\<rparr>]) = 1
   \<and> map_of (byType (getSummaryStats
      [\<lparr>cve = ''CVE-1'', vuln_title = ''a'', cvss_score = Some (19 / 2), exploited = True,
         exploitation_likely = False,
         threat_types = [''Spoofing'', ''Remote Code Execution'', ''Spoofing''],
         affected_products = []\<rparr>,
       \<lparr>cve = ''CVE-2'', vuln_title = ''b'', cvss_score = Some 7, exploited = False,
         exploitation_likely = False, threat_types = [''Spoofing''],
         affected_products = []\<rparr>])) ''Spoofing'' = Some 2
   \<and> ''Spoofing'' \<in> set VULN_TYPES"
  using getSummaryStats_counts
    [of "[\<lparr>cve = ''CVE-1'', vuln_title = ''a'', cvss_score = Some (19 / 2), exploited = True,
         exploitation_likely = False,
         threat_types = [''Spoofing'', ''Remote Code Execution'', ''Spoofing''],
         affected_products = []\<rparr>,
       \<lparr>cve = ''CVE-2'', vuln_title = ''b'', cvss_score = Some 7, exploited = False,
         exploitation_likely = False, threat_types = [''Spoofing''],
         affected_products = []\<rparr>]"]
  by (simp add: getSummaryStats_def Let_def VULN_TYPES_def)

lemma take_filter_prefix:
  "k \<le> length (map f (filter P xs)) \<Longrightarrow>
   \<exists>j \<le> length xs. take k (map f (filter P xs)) = map f (filter P (take j xs))"
proof (induction xs arbitrary: k)
  case Nil
  then show ?case by simp
next
  case (Cons x xs)
  show ?case
  proof (cases k)
    case 0
    have "take k (map f (filter P (x # xs))) = map f (filter P (take 0 (x # xs)))"
      using 0 by simp
    then show ?thesis by blast
  next
    case (Suc k')
    show ?thesis
    proof (cases "P x")
      case True
      with Cons.prems Suc have "k' \<le> length (map f (filter P xs))" by simp
      from Cons.IH [OF this] obtain j where j: "j \<le> length xs"
        and eq: "take k' (map f (filter P xs)) = map f (filter P (take j xs))" by blast
      from True Suc eq
      have "take k (map f (filter P (x # xs))) = map f (filter P (take (Suc j) (x # xs)))"
        by simp
      moreover from j have "Suc j \<le> length (x # xs)" by simp
      ultimately show ?thesis by blast
    next
      case False
      with Cons.prems have "k \<le> length (map f (filter P xs))" by simp
      from Cons.IH [OF this] obtain j where j: "j \<le> length xs"
        and eq: "take k (map f (filter P xs)) = map f (filter P (take j xs))" by blast
      from False eq
      have "take k (map f (filter P (x # xs))) = map f (filter P (take (Suc j) (x # xs)))"
        by simp
      moreover from j have "Suc j \<le> length (x # xs)" by simp
      ultimately show ?thesis by blast
    qed
  qed
qed

text \<open>
  C5 as stated fails: the average is computed with doubles. For the scores 7, 7 and 8.2,
  whose arithmetic mean is 7.4, the code adds 7, 7 and the double of 8.2, which gives
  the double of 22.2, and divides by 3, which gives 7.3999999999999995: the double
  below 7.4, which is neither 7.4 nor the double that 7.4 is written as.
\<close>

theorem getSummaryStats_avg_rounded_counterexample:
  "avg (getSummaryStats
      [recWindows\<lparr>cvss_score := Some 7\<rparr>, recBoth\<lparr>cvss_score := Some 7\<rparr>,
       recMariner\<lparr>cvss_score := Some (41 / 5)\<rparr>])
     = Some (8331659310635417 / 1125899906842624)
   \<and> (7 + 7 + 41 / 5) / 3 = (37 / 5 :: rat)
   \<and> (8331659310635417 / 1125899906842624 :: rat) < 37 / 5
   \<and> toDouble (37 / 5) = Some (4165829655317709 / 562949953421312)
   \<and> (8331659310635417 / 1125899906842624 :: rat) < 4165829655317709 / 562949953421312"
  by (simp add: getSummaryStats_def Let_def js_div_def js_add_def recWindows_def recBoth_def
      recMariner_def toDouble_eval)

text \<open>
  C5, amended. The scores that enter the average are those of exactly the records that
  have a score, in their order; records without a score enter neither the sum nor the
  count. The average is their mean as computed with doubles: the doubles of the scores
  are added from 0, each sum rounded to the nearest double, and the sum is divided by
  their number, the quotient rounded. It is the arithmetic mean whenever the scores,
  their partial sums and the mean are doubles, as for 9.5 and 7.0. For \<open>n\<close> scores
  between - 10 and 10 (those of CVSS are between 0 and 10) in an array, which has fewer
  than \<open>2 ^ 32\<close> elements, it is a finite number and differs from the arithmetic mean by
  \<open>(2 n + 1) / 2 ^ 48\<close> at most. When no record has a score, the empty sequence included,
  the average is the number 0 and not the result of a division by zero. On the empty
  sequence total, exploited, likely, high and critical are 0.
\<close>

theorem getSummaryStats_avg:
  "avg (getSummaryStats vulns)
     = (if filter (\<lambda>v. cvss_score v \<noteq> None) vulns = [] then Some 0
        else js_div
               (foldl (\<lambda>a b. js_add a b) (Some 0)
                  (map (\<lambda>v. toDouble (the (cvss_score v)))
                     (filter (\<lambda>v. cvss_score v \<noteq> None) vulns)))
               (of_nat (length (filter (\<lambda>v. cvss_score v \<noteq> None) vulns))))
   \<and> (filter (\<lambda>v. cvss_score v \<noteq> None) vulns \<noteq> []
        \<and> (\<forall>v \<in> set vulns. \<forall>s. cvss_score v = Some s \<longrightarrow> toDouble s = Some s)
        \<and> (\<forall>k \<le> length vulns.
              toDouble (\<Sum>v\<leftarrow>filter (\<lambda>v. cvss_score v \<noteq> None) (take k vulns). the (cvss_score v))
              = Some (\<Sum>v\<leftarrow>filter (\<lambda>v. cvss_score v \<noteq> None) (take k vulns). the (cvss_score v)))
        \<and> toDouble ((\<Sum>v\<leftarrow>filter (\<lambda>v. cvss_score v \<noteq> None) vulns. the (cvss_score v))
                      / of_nat (length (filter (\<lambda>v. cvss_score v \<noteq> None) vulns)))
            = Some ((\<Sum>v\<leftarrow>filter (\<lambda>v. cvss_score v \<noteq> None) vulns. the (cvss_score v))
                      / of_nat (length (filter (\<lambda>v. cvss_score v \<noteq> None) vulns)))
        \<longrightarrow> avg (getSummaryStats vulns)
            = Some ((\<Sum>v\<leftarrow>filter (\<lambda>v. cvss_score v \<noteq> None) vulns. the (cvss_score v))
                      / of_nat (length (filter (\<lambda>v. cvss_score v \<noteq> None) vulns))))
   \<and> (filter (\<lambda>v. cvss_score v \<noteq> None) vulns \<noteq> []
        \<and> (\<forall>v \<in> set vulns. \<forall>s. cvss_score v = Some s \<longrightarrow> \<bar>s\<bar> \<le> 10)
        \<and> length vulns < 2 ^ 32
        \<longrightarrow> (\<exists>a. avg (getSummaryStats vulns) = Some a
              \<and> \<bar>a - (\<Sum>v\<leftarrow>filter (\<lambda>v. cvss_score v \<noteq> None) vulns. the (cvss_score v))
                        / of_nat (length (filter (\<lambda>v. cvss_score v \<noteq> None) vulns))\<bar>
                \<le> (2 * of_nat (length (filter (\<lambda>v. cvss_score v \<noteq> None) vulns)) + 1) / 2 ^ 48))
   \<and> ((\<forall>v \<in> set vulns. cvss_score v = None) \<longrightarrow> avg (getSummaryStats vulns) = Some 0)
   \<and> getSummaryStats []
     = \<lparr>totalCount = 0, exploitedCount = 0, likely = 0, high = 0, critical = 0,
        avg = Some 0, byType = map (\<lambda>type. (type, 0)) VULN_TYPES\<rparr>"
proof -
  let ?scored = "filter (\<lambda>v. cvss_score v \<noteq> None) vulns"
  let ?ss = "map (\<lambda>v. the (cvss_score v)) ?scored"
  let ?mean = "sum_list ?ss / of_nat (length ?scored)"
  have mean: "avg (getSummaryStats vulns)
     = (if ?scored = [] then Some 0
        else js_div
               (foldl (\<lambda>a b. js_add a b) (Some 0) (map (\<lambda>v. toDouble (the (cvss_score v))) ?scored))
               (of_nat (length ?scored)))"
    by (simp add: getSummaryStats_def Let_def scores_of_scored comp_def)
  have exact: "avg (getSummaryStats vulns) = Some ?mean"
    if ne: "?scored \<noteq> []"
      and dbl: "\<forall>v \<in> set vulns. \<forall>s. cvss_score v = Some s \<longrightarrow> toDouble s = Some s"
      and sums: "\<forall>k \<le> length vulns.
              toDouble (\<Sum>v\<leftarrow>filter (\<lambda>v. cvss_score v \<noteq> None) (take k vulns). the (cvss_score v))
              = Some (\<Sum>v\<leftarrow>filter (\<lambda>v. cvss_score v \<noteq> None) (take k vulns). the (cvss_score v))"
      and quot: "toDouble ?mean = Some ?mean"
  proof -
    have elems: "toDouble x = Some x" if "x \<in> set ?ss" for x
      using that dbl by auto
    have prefixes: "toDouble (0 + sum_list (take k ?ss)) = Some (0 + sum_list (take k ?ss))"
      if "k \<le> length ?ss" for k
    proof -
      have "\<exists>j \<le> length vulns. take k ?ss
          = map (\<lambda>v. the (cvss_score v)) (filter (\<lambda>v. cvss_score v \<noteq> None) (take j vulns))"
        using that by (rule take_filter_prefix)
      then obtain j where "j \<le> length vulns" and "take k ?ss
          = map (\<lambda>v. the (cvss_score v)) (filter (\<lambda>v. cvss_score v \<noteq> None) (take j vulns))"
        by blast
      with sums show ?thesis by simp
    qed
    have "foldl (\<lambda>a b. js_add a b) (Some 0) (map toDouble ?ss) = Some (0 + sum_list ?ss)"
      using elems prefixes by (rule foldl_js_add_exact)
    then have "foldl (\<lambda>a b. js_add a b) (Some 0)
        (map (\<lambda>v. toDouble (the (cvss_score v))) ?scored) = Some (sum_list ?ss)"
      by (simp add: comp_def)
    with mean ne quot show ?thesis
      by (simp add: js_div_def)
  qed
  have near: "\<exists>a. avg (getSummaryStats vulns) = Some a
      \<and> \<bar>a - ?mean\<bar> \<le> (2 * of_nat (length ?scored) + 1) / 2 ^ 48"
    if ne: "?scored \<noteq> []"
      and range: "\<forall>v \<in> set vulns. \<forall>s. cvss_score v = Some s \<longrightarrow> \<bar>s\<bar> \<le> 10"
      and len: "length vulns < 2 ^ 32"
  proof -
    from ne have ne': "?ss \<noteq> []" by simp
    from range have range': "\<forall>x \<in> set ?ss. \<bar>x\<bar> \<le> 10" by auto
    have "length ?ss \<le> length vulns" by simp
    from this len have len': "length ?ss < 2 ^ 32" by (rule le_less_trans)
    from js_mean_scores [OF ne' range' len'] obtain a where
      run: "js_div (foldl (\<lambda>a b. js_add a b) (Some 0) (map toDouble ?ss)) (of_nat (length ?ss))
          = Some a"
      and err: "\<bar>a - sum_list ?ss / of_nat (length ?ss)\<bar> \<le> (2 * of_nat (length ?ss) + 1) / 2 ^ 48"
      by blast
    from mean ne run have "avg (getSummaryStats vulns) = Some a"
      by (simp add: comp_def)
    moreover from err have "\<bar>a - ?mean\<bar> \<le> (2 * of_nat (length ?scored) + 1) / 2 ^ 48"
      by simp
    ultimately show ?thesis by blast
  qed
  have none: "(\<forall>v \<in> set vulns. cvss_score v = None) \<longrightarrow> avg (getSummaryStats vulns) = Some 0"
    unfolding mean by (simp add: filter_empty_conv)
  have empty: "getSummaryStats []
     = \<lparr>totalCount = 0, exploitedCount = 0, likely = 0, high = 0, critical = 0,
        avg = Some 0, byType = map (\<lambda>type. (type, 0)) VULN_TYPES\<rparr>"
    by (simp add: getSummaryStats_def Let_def)
  from mean exact near none empty show ?thesis by blast
qed

theorem getSummaryStats_avg_witness:
  "avg (getSummaryStats [recMariner, recMariner]) = Some 0
   \<and> cvss_score recMariner = None
   \<and> avg (getSummaryStats
       [recBoth\<lparr>cvss_score := Some (19 / 2)\<rparr>, recMariner, recWindows\<lparr>cvss_score := Some 7\<rparr>])
     = Some (33 / 4)
   \<and> (\<exists>a. avg (getSummaryStats
              [recWindows\<lparr>cvss_score := Some 7\<rparr>, recBoth\<lparr>cvss_score := Some 7\<rparr>,
               recMariner\<lparr>cvss_score := Some (41 / 5)\<rparr>]) = Some a
         \<and> \<bar>a - 37 / 5\<bar> \<le> 7 / 2 ^ 48)"
proof -
  let ?a = "recBoth\<lparr>cvss_score := Some (19 / 2)\<rparr>"
  let ?b = "recWindows\<lparr>cvss_score := Some 7\<rparr>"
  let ?vs = "[?a, recMariner, ?b]"
  have m: "cvss_score recMariner = None" by (simp add: recMariner_def)
  then have none: "\<forall>v \<in> set [recMariner, recMariner]. cvss_score v = None" by simp
  from getSummaryStats_avg [of "[recMariner, recMariner]"] none
  have zero: "avg (getSummaryStats [recMariner, recMariner]) = Some 0" by blast
  have scored: "filter (\<lambda>v. cvss_score v \<noteq> None) ?vs = [?a, ?b]"
    by (simp add: m del: not_None_eq)
  have ne: "filter (\<lambda>v. cvss_score v \<noteq> None) ?vs \<noteq> []"
    unfolding scored by simp
  have dbl: "\<forall>v \<in> set ?vs. \<forall>s. cvss_score v = Some s \<longrightarrow> toDouble s = Some s"
  proof (intro ballI allI impI)
    fix v s
    assume "v \<in> set ?vs" and s: "cvss_score v = Some s"
    then consider "v = ?a" | "v = recMariner" | "v = ?b" by auto
    then show "toDouble s = Some s"
    proof cases
      case 1
      with s have eq: "s = 19 / 2" by simp
      show ?thesis unfolding eq by (rule toDouble_exact_values)
    next
      case 2
      with s m show ?thesis by simp
    next
      case 3
      with s have eq: "s = 7" by simp
      show ?thesis unfolding eq by (rule toDouble_exact_values)
    qed
  qed
  have fixed: "toDouble x = Some x" if "x \<in> {0, 19 / 2, 33 / 2}" for x :: rat
    using that toDouble_exact_values toDouble_zero by blast
  have sums: "\<forall>k \<le> length ?vs.
      toDouble (\<Sum>v\<leftarrow>filter (\<lambda>v. cvss_score v \<noteq> None) (take k ?vs). the (cvss_score v))
      = Some (\<Sum>v\<leftarrow>filter (\<lambda>v. cvss_score v \<noteq> None) (take k ?vs). the (cvss_score v))"
  proof (intro allI impI)
    fix k :: nat
    assume "k \<le> length ?vs"
    then have "k \<le> 3" by simp
    then consider "k = 0" | "k = 1" | "k = 2" | "k = 3" by linarith
    then have "(\<Sum>v\<leftarrow>filter (\<lambda>v. cvss_score v \<noteq> None) (take k ?vs). the (cvss_score v))
        \<in> {0, 19 / 2, 33 / 2}"
      by cases (simp_all add: m numeral_2_eq_2 numeral_3_eq_3 del: not_None_eq)
    then show "toDouble (\<Sum>v\<leftarrow>filter (\<lambda>v. cvss_score v \<noteq> None) (take k ?vs). the (cvss_score v))
      = Some (\<Sum>v\<leftarrow>filter (\<lambda>v. cvss_score v \<noteq> None) (take k ?vs). the (cvss_score v))"
      by (rule fixed)
  qed
  have mean: "(\<Sum>v\<leftarrow>filter (\<lambda>v. cvss_score v \<noteq> None) ?vs. the (cvss_score v))
      / of_nat (length (filter (\<lambda>v. cvss_score v \<noteq> None) ?vs)) = 33 / 4"
    unfolding scored by simp
  have quot: "toDouble ((\<Sum>v\<leftarrow>filter (\<lambda>v. cvss_score v \<noteq> None) ?vs. the (cvss_score v))
      / of_nat (length (filter (\<lambda>v. cvss_score v \<noteq> None) ?vs)))
    = Some ((\<Sum>v\<leftarrow>filter (\<lambda>v. cvss_score v \<noteq> None) ?vs. the (cvss_score v))
      / of_nat (length (filter (\<lambda>v. cvss_score v \<noteq> None) ?vs)))"
    unfolding mean by (simp add: toDouble_exact_values)
  from getSummaryStats_avg [of ?vs] ne dbl sums quot
  have "avg (getSummaryStats ?vs)
      = Some ((\<Sum>v\<leftarrow>filter (\<lambda>v. cvss_score v \<noteq> None) ?vs. the (cvss_score v))
          / of_nat (length (filter (\<lambda>v. cvss_score v \<noteq> None) ?vs)))"
    by blast
  then have exact: "avg (getSummaryStats ?vs) = Some (33 / 4)"
    unfolding mean .
  let ?ws = "[recWindows\<lparr>cvss_score := Some 7\<rparr>, recBoth\<lparr>cvss_score := Some 7\<rparr>,
              recMariner\<lparr>cvss_score := Some (41 / 5)\<rparr>]"
  have all: "filter (\<lambda>v. cvss_score v \<noteq> None) ?ws = ?ws"
    by (simp del: not_None_eq)
  have ne_w: "filter (\<lambda>v. cvss_score v \<noteq> None) ?ws \<noteq> []"
    unfolding all by simp
  have range_w: "\<forall>v \<in> set ?ws. \<forall>s. cvss_score v = Some s \<longrightarrow> \<bar>s\<bar> \<le> 10"
    by auto
  have len_w: "length ?ws < 2 ^ 32" by simp
  have mean_w: "(\<Sum>v\<leftarrow>filter (\<lambda>v. cvss_score v \<noteq> None) ?ws. the (cvss_score v))
      / of_nat (length (filter (\<lambda>v. cvss_score v \<noteq> None) ?ws)) = 37 / 5"
    unfolding all by simp
  have bound_w: "(2 * of_nat (length (filter (\<lambda>v. cvss_score v \<noteq> None) ?ws)) + 1) / 2 ^ 48
      = (7 / 2 ^ 48 :: rat)"
    unfolding all by simp
  from getSummaryStats_avg [of ?ws] ne_w range_w len_w
  have "\<exists>a. avg (getSummaryStats ?ws) = Some a
      \<and> \<bar>a - (\<Sum>v\<leftarrow>filter (\<lambda>v. cvss_score v \<noteq> None) ?ws. the (cvss_score v))
                / of_nat (length (filter (\<lambda>v. cvss_score v \<noteq> None) ?ws))\<bar>
        \<le> (2 * of_nat (length (filter (\<lambda>v. cvss_score v \<noteq> None) ?ws)) + 1) / 2 ^ 48"
    by blast
  then have near: "\<exists>a. avg (getSummaryStats ?ws) = Some a \<and> \<bar>a - 37 / 5\<bar> \<le> 7 / 2 ^ 48"
    unfolding mean_w bound_w .
  from zero m exact near show ?thesis by blast
qed

section \<open>Index grouper: verification\<close>

subsection \<open>Splitting and month extraction\<close>

lemma js_split_length: "length (js_split sep s) = Suc (length (filter (\<lambda>c. c = sep) s))"
  by (induction s) (auto split: list.splits)

lemma js_split_not_Nil: "js_split sep s \<noteq> []"
  using js_split_length [of sep s] by auto

lemma monthOf_Inr_iff: "(\<exists>m. monthOf a = Inr m) \<longleftrightarrow> CHR ''-'' \<in> set a"
proof -
  have "(\<exists>m. monthOf a = Inr m) \<longleftrightarrow> 2 \<le> length (js_split CHR ''-'' a)"
    by (auto simp: monthOf_def split: list.splits)
  also have "\<dots> \<longleftrightarrow> filter (\<lambda>c. c = CHR ''-'') a \<noteq> []"
    by (simp add: js_split_length Suc_le_eq)
  also have "\<dots> \<longleftrightarrow> CHR ''-'' \<in> set a"
    by (auto simp: filter_empty_conv)
  finally show ?thesis .
qed

lemma compareMonths_Inr:
  "compareMonths a b = Inr c \<Longrightarrow>
   (\<exists>ma mb. monthOf a = Inr ma \<and> monthOf b = Inr mb) \<and> c = monthRank a - monthRank b"
  by (auto simp: compareMonths_def monthRank_def split: sum.splits)

lemma compareMonths_total:
  "monthOf a = Inr ma \<Longrightarrow> monthOf b = Inr mb \<Longrightarrow>
   compareMonths a b = Inr (monthRank a - monthRank b)"
  by (simp add: compareMonths_def monthRank_def)

lemma indexOf_range: "- 1 \<le> indexOf xs x \<and> indexOf xs x < int (length xs)"
  by (induction xs) auto

lemma indexOf_neg_iff: "indexOf xs x < 0 \<longleftrightarrow> x \<notin> set xs"
proof (induction xs)
  case Nil
  show ?case by simp
next
  case (Cons y ys)
  have "- 1 \<le> indexOf ys x" by (simp add: indexOf_range)
  with Cons show ?case by auto
qed

lemma indexOf_absent: "x \<notin> set xs \<Longrightarrow> indexOf xs x = - 1"
  using indexOf_neg_iff [of xs x] indexOf_range [of xs x] by linarith

lemma indexOf_nth: "x \<in> set xs \<Longrightarrow> xs ! nat (indexOf xs x) = x"
proof (induction xs)
  case Nil
  then show ?case by simp
next
  case (Cons y ys)
  show ?case
  proof (cases "y = x")
    case True
    then show ?thesis by simp
  next
    case False
    with Cons.prems have in_ys: "x \<in> set ys" by simp
    then have "\<not> indexOf ys x < 0" by (simp add: indexOf_neg_iff)
    with False Cons.IH [OF in_ys] show ?thesis
      by (simp add: nat_add_distrib)
  qed
qed

subsection \<open>The sort\<close>

lemma js_insert_length: "js_insert cmp x ys = Inr zs \<Longrightarrow> length zs = Suc (length ys)"
  by (induction ys arbitrary: zs) (auto split: sum.splits if_splits)

lemma js_sort_length: "js_sort cmp xs = Inr ys \<Longrightarrow> length ys = length xs"
  by (induction xs arbitrary: ys) (auto split: sum.splits dest: js_insert_length)

lemma js_insert_key:
  fixes k :: "'a \<Rightarrow> 'k::linorder" and cmp :: "'a \<Rightarrow> 'a \<Rightarrow> error + 'n::{zero,linorder}"
  assumes "\<And>y c. cmp x y = Inr c \<Longrightarrow> (c \<le> 0 \<longleftrightarrow> k x \<le> k y)"
  shows "js_insert cmp x ys = Inr zs \<Longrightarrow> zs = insort_key k x ys"
  using assms by (induction ys arbitrary: zs) (auto split: sum.splits if_splits)

lemma js_sort_key:
  fixes k :: "'a \<Rightarrow> 'k::linorder" and cmp :: "'a \<Rightarrow> 'a \<Rightarrow> error + 'n::{zero,linorder}"
  assumes "\<And>x y c. cmp x y = Inr c \<Longrightarrow> (c \<le> 0 \<longleftrightarrow> k x \<le> k y)"
  shows "js_sort cmp xs = Inr ys \<Longrightarrow> ys = sort_key k xs"
proof (induction xs arbitrary: ys)
  case Nil
  then show ?case by simp
next
  case (Cons x xs)
  from Cons.prems obtain ws where ws: "js_sort cmp xs = Inr ws" and ins: "js_insert cmp x ws = Inr ys"
    by (auto split: sum.splits)
  from Cons.IH [OF ws] have "ws = sort_key k xs" .
  moreover have "ys = insort_key k x ws"
  proof (rule js_insert_key [OF _ ins])
    fix y c
    assume "cmp x y = Inr c"
    then show "c \<le> 0 \<longleftrightarrow> k x \<le> k y" by (rule assms)
  qed
  ultimately show ?case by simp
qed

lemma js_insert_total:
  assumes "\<And>y. y \<in> set ys \<Longrightarrow> \<exists>c. cmp x y = Inr c"
  shows "\<exists>zs. js_insert cmp x ys = Inr zs"
  using assms
proof (induction ys)
  case Nil
  show ?case by simp
next
  case (Cons y ys)
  from Cons.prems obtain c where c: "cmp x y = Inr c" by auto
  from Cons obtain zs where "js_insert cmp x ys = Inr zs" by auto
  with c show ?case by simp
qed

lemma js_insert_mset: "js_insert cmp x ys = Inr zs \<Longrightarrow> mset zs = add_mset x (mset ys)"
proof (induction ys arbitrary: zs)
  case Nil
  then show ?case by auto
next
  case (Cons y ys)
  from Cons.prems obtain c where c: "cmp x y = Inr c"
    by (auto split: sum.splits)
  show ?case
  proof (cases "c \<le> 0")
    case True
    with Cons.prems c show ?thesis by auto
  next
    case False
    with Cons.prems c obtain ws where ws: "js_insert cmp x ys = Inr ws" and zs: "zs = y # ws"
      by (auto split: sum.splits)
    from Cons.IH [OF ws] zs show ?thesis by simp
  qed
qed

lemma js_sort_mset: "js_sort cmp xs = Inr ys \<Longrightarrow> mset ys = mset xs"
proof (induction xs arbitrary: ys)
  case Nil
  then show ?case by simp
next
  case (Cons x xs)
  from Cons.prems obtain ws where ws: "js_sort cmp xs = Inr ws"
    and ins: "js_insert cmp x ws = Inr ys"
    by (auto split: sum.splits)
  from js_insert_mset [OF ins] Cons.IH [OF ws] show ?case by simp
qed

lemma js_sort_set: "js_sort cmp xs = Inr ys \<Longrightarrow> set ys = set xs"
  by (drule js_sort_mset) (rule mset_eq_setD)

lemma js_sort_total:
  assumes "\<And>x y. x \<in> set xs \<Longrightarrow> y \<in> set xs \<Longrightarrow> \<exists>c. cmp x y = Inr c"
  shows "\<exists>ys. js_sort cmp xs = Inr ys"
  using assms
proof (induction xs)
  case Nil
  show ?case by simp
next
  case (Cons x xs)
  from Cons obtain ws where ws: "js_sort cmp xs = Inr ws" by auto
  have "\<exists>zs. js_insert cmp x ws = Inr zs"
  proof (rule js_insert_total)
    fix y assume "y \<in> set ws"
    with ws have "y \<in> set xs" by (simp add: js_sort_set)
    then show "\<exists>c. cmp x y = Inr c" using Cons.prems by simp
  qed
  with ws show ?case by auto
qed

lemma compareMonths_sign:
  "compareMonths x y = Inr c \<Longrightarrow> (c \<le> 0 \<longleftrightarrow> monthRank x \<le> monthRank y)"
  by (drule compareMonths_Inr) simp

lemma js_sort_months_rank:
  "js_sort compareMonths files = Inr files' \<Longrightarrow> files' = sort_key monthRank files"
  by (rule js_sort_key [where cmp = compareMonths and k = monthRank, OF compareMonths_sign])

lemma js_insert_months_called:
  "js_insert compareMonths x (y # ys) = Inr zs \<Longrightarrow>
   (\<exists>m. monthOf x = Inr m) \<and> (\<exists>m. monthOf y = Inr m)"
  by (auto split: sum.splits dest: compareMonths_Inr)

lemma js_sort_months_parsed:
  "js_sort compareMonths files = Inr files' \<Longrightarrow> 2 \<le> length files \<Longrightarrow>
   f \<in> set files \<Longrightarrow> \<exists>m. monthOf f = Inr m"
proof (induction files arbitrary: files' f)
  case Nil
  then show ?case by simp
next
  case (Cons x xs)
  from Cons.prems(1) obtain ws where ws: "js_sort compareMonths xs = Inr ws"
    and ins: "js_insert compareMonths x ws = Inr files'"
    by (auto split: sum.splits)
  from Cons.prems(2) ws have "ws \<noteq> []" using js_sort_length [OF ws] by auto
  then obtain y ys where wsc: "ws = y # ys" by (cases ws) auto
  from ins wsc have "js_insert compareMonths x (y # ys) = Inr files'" by simp
  from js_insert_months_called [OF this]
  have x: "\<exists>m. monthOf x = Inr m" and y: "\<exists>m. monthOf y = Inr m" by simp_all
  show ?case
  proof (cases "f = x")
    case True
    with x show ?thesis by simp
  next
    case False
    with Cons.prems(3) have fin: "f \<in> set xs" by simp
    show ?thesis
    proof (cases "2 \<le> length xs")
      case True
      from Cons.IH [OF ws True fin] show ?thesis .
    next
      case False
      then have "length xs \<le> 1" by simp
      with fin have "xs = [f]" by (cases xs) auto
      with ws wsc have "y = f" by simp
      with y show ?thesis by simp
    qed
  qed
qed

subsection \<open>The grouping\<close>

lemma map_of_push:
  "map_of (push year file grouped) k
   = (case map_of grouped k of
        None \<Rightarrow> None
      | Some files \<Rightarrow> Some (if k = year then files @ [file] else files))"
  by (induction grouped) (auto simp: push_def)

lemma map_of_new_key:
  "map_of grouped year = None \<Longrightarrow>
   map_of (grouped @ [(year, [file])]) k = (if k = year then Some [file] else map_of grouped k)"
  by (auto simp: map_of_append map_add_def split: option.splits)

lemma addFile_lookup:
  assumes "addFile grouped file = Inr grouped'"
  shows "map_of grouped' k
   = (if endsWith file ''.json'' \<and> yearOf file = k
      then Some ((case map_of grouped k of None \<Rightarrow> [] | Some files \<Rightarrow> files) @ [file])
      else map_of grouped k)"
proof (cases "endsWith file ''.json''")
  case False
  with assms show ?thesis by (simp add: addFile_def Let_def)
next
  case True
  show ?thesis
  proof (cases "map_of grouped (yearOf file)")
    case None
    with True assms have "grouped' = grouped @ [(yearOf file, [file])]"
      by (simp add: addFile_def Let_def split: if_splits)
    then have "map_of grouped' k = (if k = yearOf file then Some [file] else map_of grouped k)"
      using map_of_new_key [OF None] by simp
    with None True show ?thesis by auto
  next
    case (Some files)
    with True assms have "grouped' = push (yearOf file) file grouped"
      by (simp add: addFile_def Let_def)
    with Some True show ?thesis by (auto simp: map_of_push split: option.splits)
  qed
qed

lemma forEach_addFile_lookup:
  "forEach addFile entries grouped = Inr grouped' \<Longrightarrow>
   map_of grouped' k
   = (if filter (\<lambda>f. endsWith f ''.json'' \<and> yearOf f = k) entries = [] then map_of grouped k
      else Some ((case map_of grouped k of None \<Rightarrow> [] | Some files \<Rightarrow> files)
                 @ filter (\<lambda>f. endsWith f ''.json'' \<and> yearOf f = k) entries))"
proof (induction entries arbitrary: grouped)
  case Nil
  then show ?case by simp
next
  case (Cons x entries)
  from Cons.prems obtain g1 where g1: "addFile grouped x = Inr g1"
    and rest: "forEach addFile entries g1 = Inr grouped'"
    by (auto split: sum.splits)
  note step = addFile_lookup [OF g1, of k]
  note tail = Cons.IH [OF rest]
  show ?case
  proof (cases "endsWith x ''.json'' \<and> yearOf x = k")
    case True
    with step tail show ?thesis by simp
  next
    case False
    with step tail show ?thesis by auto
  qed
qed

lemma forEach_addFile_total:
  "(\<And>f. f \<in> set entries \<Longrightarrow> endsWith f ''.json'' \<Longrightarrow> yearOf f \<notin> set Object_prototype) \<Longrightarrow>
   \<exists>grouped'. forEach addFile entries grouped = Inr grouped'"
proof (induction entries arbitrary: grouped)
  case Nil
  show ?case by simp
next
  case (Cons x entries)
  have "\<exists>g1. addFile grouped x = Inr g1"
    using Cons.prems [of x] by (auto simp: addFile_def Let_def split: option.splits)
  then obtain g1 where g1: "addFile grouped x = Inr g1" ..
  from Cons.IH [of g1] Cons.prems obtain g2 where "forEach addFile entries g1 = Inr g2"
    by auto
  with g1 show ?case by simp
qed

lemma addFile_members:
  assumes "addFile grouped file = Inr grouped'" and "(k, files) \<in> set grouped'"
    and "f \<in> set files"
  shows "f = file \<and> endsWith f ''.json'' \<or> (\<exists>files0. (k, files0) \<in> set grouped \<and> f \<in> set files0)"
proof (cases "endsWith file ''.json''")
  case False
  with assms show ?thesis by (auto simp: addFile_def Let_def)
next
  case True
  show ?thesis
  proof (cases "map_of grouped (yearOf file)")
    case None
    with True assms(1) have "grouped' = grouped @ [(yearOf file, [file])]"
      by (simp add: addFile_def Let_def split: if_splits)
    with assms(2,3) True show ?thesis by auto
  next
    case (Some files1)
    with True assms(1) have "grouped' = push (yearOf file) file grouped"
      by (simp add: addFile_def Let_def)
    with assms(2,3) True show ?thesis
      by (auto simp: push_def split: if_splits)
  qed
qed

lemma forEach_addFile_members:
  "forEach addFile entries grouped = Inr grouped' \<Longrightarrow> (k, files) \<in> set grouped' \<Longrightarrow>
   f \<in> set files \<Longrightarrow>
   f \<in> set entries \<and> endsWith f ''.json'' \<or> (\<exists>files0. (k, files0) \<in> set grouped \<and> f \<in> set files0)"
proof (induction entries arbitrary: grouped)
  case Nil
  then show ?case by auto
next
  case (Cons x entries)
  from Cons.prems(1) obtain g1 where g1: "addFile grouped x = Inr g1"
    and rest: "forEach addFile entries g1 = Inr grouped'"
    by (auto split: sum.splits)
  from Cons.IH [OF rest Cons.prems(2,3)]
  consider "f \<in> set entries \<and> endsWith f ''.json''"
    | files1 where "(k, files1) \<in> set g1" "f \<in> set files1"
    by blast
  then show ?case
  proof cases
    case 1
    then show ?thesis by simp
  next
    case 2
    from addFile_members [OF g1 2] show ?thesis by auto
  qed
qed

lemma sortGroups_lookup:
  "sortGroups grouped = Inr grouped' \<Longrightarrow>
   (map_of grouped k = None \<longrightarrow> map_of grouped' k = None)
   \<and> (\<forall>files. map_of grouped k = Some files \<longrightarrow>
        (\<exists>files'. js_sort compareMonths files = Inr files' \<and> map_of grouped' k = Some files'))"
proof (induction grouped arbitrary: grouped')
  case Nil
  then show ?case by simp
next
  case (Cons entry rest)
  obtain year files where entry: "entry = (year, files)" by (cases entry)
  from Cons.prems entry obtain files' rest' where
    s: "js_sort compareMonths files = Inr files'" and r: "sortGroups rest = Inr rest'"
    and g: "grouped' = (year, files') # rest'"
    by (auto split: sum.splits)
  from Cons.IH [OF r] entry s g show ?case by simp
qed

lemma sortGroups_total:
  "(\<And>k files. (k, files) \<in> set grouped \<Longrightarrow> \<exists>files'. js_sort compareMonths files = Inr files') \<Longrightarrow>
   \<exists>grouped'. sortGroups grouped = Inr grouped'"
proof (induction grouped)
  case Nil
  show ?case by simp
next
  case (Cons entry rest)
  obtain year files where entry: "entry = (year, files)" by (cases entry)
  from Cons.prems [of year files] entry obtain files' where
    s: "js_sort compareMonths files = Inr files'" by auto
  from Cons.IH Cons.prems obtain rest' where r: "sortGroups rest = Inr rest'"
    by (meson list.set_intros(2))
  from entry s r show ?case by simp
qed

lemma groupIndex_lookup:
  assumes "groupIndex entries = Inr grouped"
  shows "map_of grouped year
   = (if filter (\<lambda>f. endsWith f ''.json'' \<and> yearOf f = year) entries = [] then None
      else Some (sort_key monthRank (filter (\<lambda>f. endsWith f ''.json'' \<and> yearOf f = year) entries)))"
    and "map_of grouped year = Some files \<Longrightarrow> 2 \<le> length files \<Longrightarrow> f \<in> set files \<Longrightarrow>
      \<exists>m. monthOf f = Inr m"
proof -
  from assms obtain g0 where g0: "forEach addFile entries [] = Inr g0"
    and sg: "sortGroups g0 = Inr grouped"
    by (auto simp: groupIndex_def split: sum.splits)
  let ?sel = "filter (\<lambda>f. endsWith f ''.json'' \<and> yearOf f = year) entries"
  have look0: "map_of g0 year = (if ?sel = [] then None else Some ?sel)"
    using forEach_addFile_lookup [OF g0, of year] by simp
  note sl = sortGroups_lookup [OF sg, of year]
  show look: "map_of grouped year = (if ?sel = [] then None else Some (sort_key monthRank ?sel))"
  proof (cases "?sel = []")
    case True
    with look0 sl show ?thesis by simp
  next
    case False
    with look0 have "map_of g0 year = Some ?sel" by simp
    with sl obtain files' where "js_sort compareMonths ?sel = Inr files'"
      and "map_of grouped year = Some files'" by blast
    with False show ?thesis by (simp add: js_sort_months_rank)
  qed
  show "\<exists>m. monthOf f = Inr m"
    if some: "map_of grouped year = Some files" and len: "2 \<le> length files" and f: "f \<in> set files"
  proof -
    from some look have ne: "?sel \<noteq> []" and files: "files = sort_key monthRank ?sel"
      by (auto split: if_splits)
    from ne look0 have "map_of g0 year = Some ?sel" by simp
    with sl obtain files' where js: "js_sort compareMonths ?sel = Inr files'" by blast
    from len files have "2 \<le> length ?sel" by simp
    moreover from f files have "f \<in> set ?sel" by simp
    ultimately show ?thesis using js_sort_months_parsed [OF js] by blast
  qed
qed

lemma groupIndex_total:
  assumes "\<And>f. f \<in> set entries \<Longrightarrow> endsWith f ''.json'' \<Longrightarrow>
             CHR ''-'' \<in> set f \<and> yearOf f \<notin> set Object_prototype"
  shows "\<exists>grouped. groupIndex entries = Inr grouped"
proof -
  from forEach_addFile_total [of entries "[]"] assms
  obtain g0 where g0: "forEach addFile entries [] = Inr g0" by blast
  have "\<exists>grouped. sortGroups g0 = Inr grouped"
  proof (rule sortGroups_total)
    fix k files
    assume kf: "(k, files) \<in> set g0"
    show "\<exists>files'. js_sort compareMonths files = Inr files'"
    proof (rule js_sort_total)
      fix x y
      assume "x \<in> set files" and "y \<in> set files"
      with forEach_addFile_members [OF g0 kf]
      have "x \<in> set entries \<and> endsWith x ''.json''" and "y \<in> set entries \<and> endsWith y ''.json''"
        by auto
      with assms have "CHR ''-'' \<in> set x" and "CHR ''-'' \<in> set y" by auto
      then obtain mx my where "monthOf x = Inr mx" and "monthOf y = Inr my"
        using monthOf_Inr_iff by blast
      then show "\<exists>c. compareMonths x y = Inr c"
        by (simp add: compareMonths_total)
    qed
  qed
  with g0 show ?thesis by (simp add: groupIndex_def)
qed

lemma endsWith_iff: "endsWith s t \<longleftrightarrow> (\<exists>p. s = p @ t)"
proof
  assume "endsWith s t"
  then have "s = take (length s - length t) s @ t"
    by (metis append_take_drop_id endsWith_def)
  then show "\<exists>p. s = p @ t" ..
next
  assume "\<exists>p. s = p @ t"
  then show "endsWith s t" by (auto simp: endsWith_def)
qed

lemma js_split_hd: "hd (js_split sep s) = takeWhile (\<lambda>c. c \<noteq> sep) s"
  by (induction s) (auto simp: js_split_not_Nil split: list.splits)

lemma yearOf_prefix: "yearOf f = takeWhile (\<lambda>c. c \<noteq> CHR ''-'') f"
  by (simp add: yearOf_def js_split_hd)

lemma yearOf_no_separator: "CHR ''-'' \<notin> set f \<Longrightarrow> yearOf f = f"
  by (auto simp: yearOf_prefix takeWhile_eq_all_conv)

lemma monthRank_parsed: "monthOf f = Inr m \<Longrightarrow> monthRank f = indexOf MONTH_ORDER m"
  by (simp add: monthRank_def)

text \<open>
  C3. Whenever the index grouper returns its object: an identifier that does not end in
  \<open>.json\<close> is in no group; the year key of an identifier is its text before the first
  \<open>-\<close>; a year is a key of the object exactly when an accepted identifier has it, and its
  group holds exactly the accepted identifiers of that year (as a multiset), ordered by
  the position of their month in the table of the twelve months, identifiers of the same
  position in their order of arrival. In a group of two identifiers or more each has a
  month, and its position is the index of that month in the table, at which the table
  holds a month that it lists. The grouper does
  return its object on every index whose identifiers ending in \<open>.json\<close> have a separator
  and a year key that is not a name inherited from \<open>Object.prototype\<close>. The index
  \<open>["2024-Dec.json", "2024-Jan.json"]\<close> gives the group
  \<open>["2024-Jan.json", "2024-Dec.json"]\<close>.
\<close>

theorem groupIndex_groups:
  "(groupIndex entries = Inr grouped \<longrightarrow>
      (map_of grouped year = None
       \<longleftrightarrow> filter (\<lambda>f. endsWith f ''.json'' \<and> yearOf f = year) entries = [])
      \<and> (\<forall>files. map_of grouped year = Some files \<longrightarrow>
            mset files = mset (filter (\<lambda>f. endsWith f ''.json'' \<and> yearOf f = year) entries)
            \<and> sorted (map monthRank files)
            \<and> (\<forall>r. filter (\<lambda>f. monthRank f = r) files
                   = filter (\<lambda>f. monthRank f = r)
                       (filter (\<lambda>f. endsWith f ''.json'' \<and> yearOf f = year) entries))
            \<and> (2 \<le> length files \<longrightarrow>
                 (\<forall>f \<in> set files. \<exists>m. monthOf f = Inr m
                    \<and> monthRank f = indexOf MONTH_ORDER m))))
   \<and> ((\<forall>f \<in> set entries. endsWith f ''.json'' \<longrightarrow>
          CHR ''-'' \<in> set f \<and> yearOf f \<notin> set Object_prototype)
        \<longrightarrow> (\<exists>result. groupIndex entries = Inr result))
   \<and> (\<forall>f. endsWith f ''.json'' \<longleftrightarrow> (\<exists>p. f = p @ ''.json''))
   \<and> (\<forall>f. yearOf f = takeWhile (\<lambda>c. c \<noteq> CHR ''-'') f)
   \<and> length MONTH_ORDER = 12
   \<and> (\<forall>m \<in> set MONTH_ORDER.
        0 \<le> indexOf MONTH_ORDER m \<and> MONTH_ORDER ! nat (indexOf MONTH_ORDER m) = m)
   \<and> groupIndex [''2024-Dec.json'', ''2024-Jan.json'']
       = Inr [(''2024'', [''2024-Jan.json'', ''2024-Dec.json''])]"
proof -
  let ?sel = "filter (\<lambda>f. endsWith f ''.json'' \<and> yearOf f = year) entries"
  have groups: "(map_of grouped year = None \<longleftrightarrow> ?sel = [])
      \<and> (\<forall>files. map_of grouped year = Some files \<longrightarrow>
            mset files = mset ?sel
            \<and> sorted (map monthRank files)
            \<and> (\<forall>r. filter (\<lambda>f. monthRank f = r) files = filter (\<lambda>f. monthRank f = r) ?sel)
            \<and> (2 \<le> length files \<longrightarrow>
                 (\<forall>f \<in> set files. \<exists>m. monthOf f = Inr m
                    \<and> monthRank f = indexOf MONTH_ORDER m)))"
    if run: "groupIndex entries = Inr grouped"
  proof (intro conjI allI impI)
    note look = groupIndex_lookup(1) [OF run, of year]
    show "map_of grouped year = None \<longleftrightarrow> ?sel = []"
      using look by simp
    fix files
    assume some: "map_of grouped year = Some files"
    with look have files: "files = sort_key monthRank ?sel"
      by (simp split: if_splits)
    show "mset files = mset ?sel"
      unfolding files by simp
    show "sorted (map monthRank files)"
      unfolding files by (rule sorted_sort_key)
    show "filter (\<lambda>f. monthRank f = r) files = filter (\<lambda>f. monthRank f = r) ?sel" for r
      unfolding files by (simp add: sort_key_stable)
    show "\<forall>f \<in> set files. \<exists>m. monthOf f = Inr m \<and> monthRank f = indexOf MONTH_ORDER m"
      if len: "2 \<le> length files"
    proof
      fix f
      assume "f \<in> set files"
      with groupIndex_lookup(2) [OF run some len] obtain m where "monthOf f = Inr m"
        by blast
      then show "\<exists>m. monthOf f = Inr m \<and> monthRank f = indexOf MONTH_ORDER m"
        by (simp add: monthRank_parsed)
    qed
  qed
  have total: "(\<forall>f \<in> set entries. endsWith f ''.json'' \<longrightarrow>
          CHR ''-'' \<in> set f \<and> yearOf f \<notin> set Object_prototype)
        \<longrightarrow> (\<exists>result. groupIndex entries = Inr result)"
    using groupIndex_total [of entries] by blast
  have ext: "\<forall>f. endsWith f ''.json'' \<longleftrightarrow> (\<exists>p. f = p @ ''.json'')"
    by (simp add: endsWith_iff)
  have yr: "\<forall>f. yearOf f = takeWhile (\<lambda>c. c \<noteq> CHR ''-'') f"
    by (simp add: yearOf_prefix)
  have twelve: "length MONTH_ORDER = 12"
    by (simp add: MONTH_ORDER_def)
  have table: "\<forall>m \<in> set MONTH_ORDER.
        0 \<le> indexOf MONTH_ORDER m \<and> MONTH_ORDER ! nat (indexOf MONTH_ORDER m) = m"
    using indexOf_neg_iff [of MONTH_ORDER] indexOf_nth [of _ MONTH_ORDER]
    by (meson not_less)
  have ex: "groupIndex [''2024-Dec.json'', ''2024-Jan.json'']
        = Inr [(''2024'', [''2024-Jan.json'', ''2024-Dec.json''])]"
    by (simp add: groupIndex_def addFile_def Let_def endsWith_def yearOf_def push_def
        compareMonths_def monthOf_def MONTH_ORDER_def Object_prototype_def)
  from groups total ext yr twelve table ex show ?thesis by blast
qed

theorem groupIndex_groups_witness:
  "groupIndex [''2024-Nov.json'', ''2023-Dec.json'', ''bad-entry.txt'', ''2024-Jan.json'']
     = Inr [(''2024'', [''2024-Jan.json'', ''2024-Nov.json'']), (''2023'', [''2023-Dec.json''])]
   \<and> map_of [(''2024'', [''2024-Jan.json'', ''2024-Nov.json'']), (''2023'', [''2023-Dec.json''])]
        ''2024'' = Some [''2024-Jan.json'', ''2024-Nov.json'']
   \<and> mset [''2024-Jan.json'', ''2024-Nov.json'']
     = mset (filter (\<lambda>f. endsWith f ''.json'' \<and> yearOf f = ''2024'')
               [''2024-Nov.json'', ''2023-Dec.json'', ''bad-entry.txt'', ''2024-Jan.json''])
   \<and> sorted (map monthRank [''2024-Jan.json'', ''2024-Nov.json''])
   \<and> map monthRank [''2024-Jan.json'', ''2024-Nov.json''] = [0, 10]
   \<and> (\<exists>result. groupIndex [''2024-Feb.json'', ''2023-Dec.json'', ''bad-entry''] = Inr result)"
proof -
  let ?E = "[''2024-Nov.json'', ''2023-Dec.json'', ''bad-entry.txt'', ''2024-Jan.json'']"
  let ?G = "[(''2024'', [''2024-Jan.json'', ''2024-Nov.json'']), (''2023'', [''2023-Dec.json''])]"
  let ?F = "[''2024-Feb.json'', ''2023-Dec.json'', ''bad-entry'']"
  have run: "groupIndex ?E = Inr ?G"
    by (simp add: groupIndex_def addFile_def Let_def endsWith_def yearOf_def push_def
        compareMonths_def monthOf_def MONTH_ORDER_def Object_prototype_def)
  have look: "map_of ?G ''2024'' = Some [''2024-Jan.json'', ''2024-Nov.json'']"
    by simp
  have rank: "map monthRank [''2024-Jan.json'', ''2024-Nov.json''] = [0, 10]"
    by (simp add: monthRank_def monthOf_def MONTH_ORDER_def)
  have wf: "\<forall>f \<in> set ?F. endsWith f ''.json'' \<longrightarrow>
      CHR ''-'' \<in> set f \<and> yearOf f \<notin> set Object_prototype"
    by (simp add: endsWith_def yearOf_def Object_prototype_def)
  note t = groupIndex_groups [of ?E ?G "''2024''"]
  from t run look
  have perm: "mset [''2024-Jan.json'', ''2024-Nov.json'']
     = mset (filter (\<lambda>f. endsWith f ''.json'' \<and> yearOf f = ''2024'') ?E)"
    and ord: "sorted (map monthRank [''2024-Jan.json'', ''2024-Nov.json''])"
    by blast+
  from groupIndex_groups [of ?F] wf
  have ret: "\<exists>result. groupIndex ?F = Inr result" by blast
  from run look perm ord rank ret show ?thesis by blast
qed

text \<open>
  C7 as stated fails: an identifier with the extension and no separator is not excluded
  (it is grouped under its whole name), and the grouper throws when such an identifier
  occurs twice, its group being sorted by a comparator that needs the month.
\<close>

theorem groupIndex_unparseable_counterexample:
  "groupIndex [''2024.json''] = Inr [(''2024.json'', [''2024.json''])]
   \<and> monthOf ''2024.json'' = Inl TypeError
   \<and> groupIndex [''2024.json'', ''2024.json''] = Inl TypeError"
  by (simp add: groupIndex_def addFile_def Let_def endsWith_def yearOf_def push_def
      compareMonths_def monthOf_def Object_prototype_def)

text \<open>
  C7, amended. The extension is the only check. Whenever the grouper returns, the
  identifiers in its groups are exactly the identifiers of the index that end in
  \<open>.json\<close>, each in the group of its year key, and an identifier with no separator has
  its whole name as year key. The grouper returns without an error on every index in
  which each identifier ending in \<open>.json\<close> has a separator and a year key that is not
  a name inherited from \<open>Object.prototype\<close>.
\<close>

theorem groupIndex_extension_only:
  "(groupIndex entries = Inr grouped \<longrightarrow>
      (\<forall>f. (\<exists>year files. map_of grouped year = Some files \<and> f \<in> set files)
            \<longleftrightarrow> f \<in> set entries \<and> endsWith f ''.json'')
      \<and> (\<forall>f \<in> set entries. endsWith f ''.json'' \<longrightarrow>
            (\<exists>files. map_of grouped (yearOf f) = Some files \<and> f \<in> set files)))
   \<and> (\<forall>f. CHR ''-'' \<notin> set f \<longrightarrow> yearOf f = f)
   \<and> ((\<forall>f \<in> set entries. endsWith f ''.json'' \<longrightarrow>
          CHR ''-'' \<in> set f \<and> yearOf f \<notin> set Object_prototype)
        \<longrightarrow> (\<exists>grouped. groupIndex entries = Inr grouped))"
proof -
  have kept: "(\<exists>files. map_of grouped (yearOf f) = Some files \<and> f \<in> set files)"
    if g: "groupIndex entries = Inr grouped" and f: "f \<in> set entries" "endsWith f ''.json''" for f
  proof -
    let ?sel = "filter (\<lambda>x. endsWith x ''.json'' \<and> yearOf x = yearOf f) entries"
    from f have mem: "f \<in> set ?sel" by simp
    from f have "?sel \<noteq> []" by (auto simp: filter_empty_conv)
    with groupIndex_lookup(1) [OF g, of "yearOf f"]
    have "map_of grouped (yearOf f) = Some (sort_key monthRank ?sel)" by simp
    moreover from mem have "f \<in> set (sort_key monthRank ?sel)" by simp
    ultimately show ?thesis by blast
  qed
  have only: "f \<in> set entries \<and> endsWith f ''.json''"
    if g: "groupIndex entries = Inr grouped" and some: "map_of grouped year = Some files"
      and f: "f \<in> set files" for f year files
  proof -
    let ?sel = "filter (\<lambda>x. endsWith x ''.json'' \<and> yearOf x = year) entries"
    from groupIndex_lookup(1) [OF g, of year] some
    have "files = sort_key monthRank ?sel" by (simp split: if_splits)
    with f have "f \<in> set ?sel" by simp
    then show ?thesis by simp
  qed
  have first: "groupIndex entries = Inr grouped \<longrightarrow>
      (\<forall>f. (\<exists>year files. map_of grouped year = Some files \<and> f \<in> set files)
            \<longleftrightarrow> f \<in> set entries \<and> endsWith f ''.json'')
      \<and> (\<forall>f \<in> set entries. endsWith f ''.json'' \<longrightarrow>
            (\<exists>files. map_of grouped (yearOf f) = Some files \<and> f \<in> set files))"
    using kept only by blast
  have whole: "\<forall>f. CHR ''-'' \<notin> set f \<longrightarrow> yearOf f = f"
    by (simp add: yearOf_no_separator)
  have total: "(\<forall>f \<in> set entries. endsWith f ''.json'' \<longrightarrow>
          CHR ''-'' \<in> set f \<and> yearOf f \<notin> set Object_prototype)
        \<longrightarrow> (\<exists>grouped. groupIndex entries = Inr grouped)"
    using groupIndex_total [of entries] by blast
  from first whole total show ?thesis by blast
qed

theorem groupIndex_extension_only_witness:
  "groupIndex [''2024.json'', ''2024-Jan.json'', ''notes.txt'']
     = Inr [(''2024.json'', [''2024.json'']), (''2024'', [''2024-Jan.json''])]
   \<and> endsWith ''2024.json'' ''.json'' \<and> CHR ''-'' \<notin> set ''2024.json''
   \<and> (\<exists>files. map_of [(''2024.json'', [''2024.json'']), (''2024'', [''2024-Jan.json''])]
                 (yearOf ''2024.json'') = Some files \<and> ''2024.json'' \<in> set files)
   \<and> yearOf ''2024.json'' = ''2024.json''
   \<and> (\<exists>grouped. groupIndex [''2024-Feb.json'', ''2024-Jan.json'', ''notes.txt''] = Inr grouped)"
proof -
  let ?D = "[''2024.json'', ''2024-Jan.json'', ''notes.txt'']"
  let ?G = "[(''2024.json'', [''2024.json'']), (''2024'', [''2024-Jan.json''])]"
  let ?E = "[''2024-Feb.json'', ''2024-Jan.json'', ''notes.txt'']"
  have g: "groupIndex ?D = Inr ?G"
    by (simp add: groupIndex_def addFile_def Let_def endsWith_def yearOf_def push_def
        compareMonths_def monthOf_def Object_prototype_def)
  have e: "endsWith ''2024.json'' ''.json''" and n: "CHR ''-'' \<notin> set ''2024.json''"
    by (simp_all add: endsWith_def)
  have m: "''2024.json'' \<in> set ?D" by simp
  have wf: "\<forall>f \<in> set ?E. endsWith f ''.json'' \<longrightarrow>
      CHR ''-'' \<in> set f \<and> yearOf f \<notin> set Object_prototype"
    by (simp add: endsWith_def yearOf_def Object_prototype_def)
  note t = groupIndex_extension_only [of ?D ?G] 
  from t g m e have k: "\<exists>files. map_of ?G (yearOf ''2024.json'') = Some files
      \<and> ''2024.json'' \<in> set files"
    by blast
  from t n have y: "yearOf ''2024.json'' = ''2024.json''" by blast
  from groupIndex_extension_only [of ?E] wf
  have r: "\<exists>grouped. groupIndex ?E = Inr grouped" by blast
  from g e n k y r show ?thesis by blast
qed

text \<open>
  C10. An identifier has a month token exactly when it contains a separator. When the
  month token of \<open>a\<close> is not one of the twelve abbreviations of the table and the month
  token of \<open>b\<close> is, the comparator returns a negative number for \<open>a\<close> against \<open>b\<close>
  (and a positive one for \<open>b\<close> against \<open>a\<close>) and does not throw. Hence, in every group of
  the object the grouper returns, every identifier with an unrecognised month stands
  before every identifier with a recognised one; and such an identifier, when it ends in
  \<open>.json\<close>, is in the group of its year.
\<close>

theorem compareMonths_unrecognised_first:
  "((\<exists>m. monthOf a = Inr m) \<longleftrightarrow> CHR ''-'' \<in> set a)
   \<and> (monthOf a = Inr ma \<and> ma \<notin> set MONTH_ORDER \<and> monthOf b = Inr mb \<and> mb \<in> set MONTH_ORDER \<longrightarrow>
        (\<exists>c. compareMonths a b = Inr c \<and> c < 0) \<and> (\<exists>c. compareMonths b a = Inr c \<and> 0 < c))
   \<and> (groupIndex entries = Inr grouped \<and> map_of grouped year = Some files
        \<and> i < length files \<and> j < length files
        \<and> monthOf (files ! i) = Inr mi \<and> mi \<notin> set MONTH_ORDER
        \<and> monthOf (files ! j) = Inr mj \<and> mj \<in> set MONTH_ORDER \<longrightarrow> i < j)
   \<and> (groupIndex entries = Inr grouped \<and> f \<in> set entries \<and> endsWith f ''.json''
        \<and> monthOf f = Inr m \<and> m \<notin> set MONTH_ORDER \<longrightarrow>
        (\<exists>files. map_of grouped (yearOf f) = Some files \<and> f \<in> set files))"
proof -
  have sep: "(\<exists>m. monthOf a = Inr m) \<longleftrightarrow> CHR ''-'' \<in> set a"
    by (rule monthOf_Inr_iff)
  have cmp: "(\<exists>c. compareMonths a b = Inr c \<and> c < 0) \<and> (\<exists>c. compareMonths b a = Inr c \<and> 0 < c)"
    if "monthOf a = Inr ma" "ma \<notin> set MONTH_ORDER" "monthOf b = Inr mb" "mb \<in> set MONTH_ORDER"
  proof -
    from that have "indexOf MONTH_ORDER ma = - 1" and "\<not> indexOf MONTH_ORDER mb < 0"
      by (simp_all add: indexOf_absent indexOf_neg_iff)
    with that show ?thesis by (simp add: compareMonths_def)
  qed
  have pos: "i < j"
    if g: "groupIndex entries = Inr grouped" and some: "map_of grouped year = Some files"
      and i: "i < length files" and j: "j < length files"
      and mi: "monthOf (files ! i) = Inr mi" "mi \<notin> set MONTH_ORDER"
      and mj: "monthOf (files ! j) = Inr mj" "mj \<in> set MONTH_ORDER"
  proof (rule ccontr)
    assume "\<not> i < j"
    then have ji: "j \<le> i" by simp
    from groupIndex_lookup(1) [OF g, of year] some
    have "files = sort_key monthRank
        (filter (\<lambda>x. endsWith x ''.json'' \<and> yearOf x = year) entries)"
      by (simp split: if_splits)
    then have "sorted (map monthRank files)" by (simp add: sorted_sort_key)
    from sorted_nth_mono [OF this, of j i] ji i j
    have "monthRank (files ! j) \<le> monthRank (files ! i)" by simp
    moreover from mi have "monthRank (files ! i) = - 1"
      by (simp add: monthRank_def indexOf_absent)
    moreover from mj have "\<not> monthRank (files ! j) < 0"
      by (simp add: monthRank_def indexOf_neg_iff)
    ultimately show False by simp
  qed
  have kept: "\<exists>files. map_of grouped (yearOf f) = Some files \<and> f \<in> set files"
    if g: "groupIndex entries = Inr grouped" and f: "f \<in> set entries" "endsWith f ''.json''"
  proof -
    let ?sel = "filter (\<lambda>x. endsWith x ''.json'' \<and> yearOf x = yearOf f) entries"
    from f have mem: "f \<in> set ?sel" by simp
    from f have "?sel \<noteq> []" by (auto simp: filter_empty_conv)
    with groupIndex_lookup(1) [OF g, of "yearOf f"]
    have "map_of grouped (yearOf f) = Some (sort_key monthRank ?sel)" by simp
    moreover from mem have "f \<in> set (sort_key monthRank ?sel)" by simp
    ultimately show ?thesis by blast
  qed
  from sep cmp pos kept show ?thesis by blast
qed

theorem compareMonths_unrecognised_first_witness:
  "monthOf ''2024-Foo.json'' = Inr ''Foo'' \<and> ''Foo'' \<notin> set MONTH_ORDER
   \<and> monthOf ''2024-Jan.json'' = Inr ''Jan'' \<and> ''Jan'' \<in> set MONTH_ORDER
   \<and> (\<exists>c. compareMonths ''2024-Foo.json'' ''2024-Jan.json'' = Inr c \<and> c < 0)
   \<and> groupIndex [''2024-Jan.json'', ''2024-Foo.json'', ''2024-Dec.json'']
       = Inr [(''2024'', [''2024-Foo.json'', ''2024-Jan.json'', ''2024-Dec.json''])]
   \<and> (\<exists>files. map_of [(''2024'', [''2024-Foo.json'', ''2024-Jan.json'', ''2024-Dec.json''])]
                 (yearOf ''2024-Foo.json'') = Some files \<and> ''2024-Foo.json'' \<in> set files)"
proof -
  let ?D = "[''2024-Jan.json'', ''2024-Foo.json'', ''2024-Dec.json'']"
  let ?G = "[(''2024'', [''2024-Foo.json'', ''2024-Jan.json'', ''2024-Dec.json''])]"
  have a: "monthOf ''2024-Foo.json'' = Inr ''Foo''" and b: "monthOf ''2024-Jan.json'' = Inr ''Jan''"
    by (simp_all add: monthOf_def)
  have na: "''Foo'' \<notin> set MONTH_ORDER" and nb: "''Jan'' \<in> set MONTH_ORDER"
    by (simp_all add: MONTH_ORDER_def)
  have g: "groupIndex ?D = Inr ?G"
    by (simp add: groupIndex_def addFile_def Let_def endsWith_def yearOf_def push_def
        compareMonths_def monthOf_def Object_prototype_def MONTH_ORDER_def)
  have m: "''2024-Foo.json'' \<in> set ?D" and e: "endsWith ''2024-Foo.json'' ''.json''"
    by (simp_all add: endsWith_def)
  note t = compareMonths_unrecognised_first
    [of "''2024-Foo.json''" "''Foo''" "''2024-Jan.json''" "''Jan''" ?D ?G _ _ _ _ _ _
        "''2024-Foo.json''" "''Foo''"]
  from t a na b nb
  have c: "\<exists>c. compareMonths ''2024-Foo.json'' ''2024-Jan.json'' = Inr c \<and> c < 0"
    by blast
  from t g m e a na
  have k: "\<exists>files. map_of ?G (yearOf ''2024-Foo.json'') = Some files
      \<and> ''2024-Foo.json'' \<in> set files"
    by blast
  from a na b nb c g k show ?thesis by blast
qed

section \<open>Filtering and sorting: verification\<close>

lemma inCategory_iff:
  "inCategory c v \<longleftrightarrow> (\<exists>p \<in> set (affected_products v). category p = c)"
  by (simp add: inCategory_def list_ex_iff)

lemma compareScores_sign:
  "compareScores dir a b = Inr c \<Longrightarrow>
   (c \<le> 0 \<longleftrightarrow>
    (if dir = Desc then - scoreOrZero a else scoreOrZero a)
    \<le> (if dir = Desc then - scoreOrZero b else scoreOrZero b))"
  by (auto simp: compareScores_def Let_def)

lemma js_sort_scores:
  "js_sort (compareScores dir) vs
   = Inr (sort_key (\<lambda>v. if dir = Desc then - scoreOrZero v else scoreOrZero v) vs)"
proof -
  have "\<exists>ws. js_sort (compareScores dir) vs = Inr ws"
    by (rule js_sort_total) (simp add: compareScores_def Let_def)
  then obtain ws where ws: "js_sort (compareScores dir) vs = Inr ws" ..
  have "ws = sort_key (\<lambda>v. if dir = Desc then - scoreOrZero v else scoreOrZero v) vs"
    by (rule js_sort_key [where cmp = "compareScores dir", OF compareScores_sign ws])
  with ws show ?thesis by simp
qed

text \<open>
  What the third effect does when a dataset with its records is loaded: the sequence it
  publishes, and what it leaves as it is.
\<close>

lemma filterEffect_result:
  assumes d: "data st = Some d" and v: "vulnerabilities d = Some src"
  defines "input \<equiv> (if selectedCategory st = [] then heap st ! src
                     else filter (inCategory (selectedCategory st)) (heap st ! src))"
  shows "\<exists>st' a. filterEffect st = Inr st' \<and> filteredVulns st' = Some a
     \<and> heap st' ! a
       = (if cvssSort st = NoSort then input
          else sort_key (\<lambda>v. if cvssSort st = Desc then - scoreOrZero v else scoreOrZero v) input)
     \<and> (\<forall>a < length (heap st). heap st' ! a = heap st ! a)
     \<and> length (heap st) \<le> length (heap st')
     \<and> (selectedCategory st \<noteq> [] \<or> cvssSort st \<noteq> NoSort \<longrightarrow>
          length (heap st) \<le> a \<and> a < length (heap st'))
     \<and> (selectedCategory st = [] \<and> cvssSort st = NoSort \<longrightarrow> a = src)
     \<and> st'\<lparr>heap := heap st, filteredVulns := filteredVulns st\<rparr> = st"
proof (cases "cvssSort st = NoSort")
  case True
  show ?thesis
  proof (cases "selectedCategory st = []")
    case True
    with \<open>cvssSort st = NoSort\<close> d v show ?thesis
      by (simp add: filterEffect_def input_def)
  next
    case False
    with \<open>cvssSort st = NoSort\<close> d v show ?thesis
      by (simp add: filterEffect_def input_def alloc_def nth_append)
  qed
next
  case False
  show ?thesis
  proof (cases "selectedCategory st = []")
    case True
    with \<open>cvssSort st \<noteq> NoSort\<close> d v show ?thesis
      by (simp add: filterEffect_def input_def alloc_def js_sort_scores nth_append
          nth_list_update)
  next
    case False
    with \<open>cvssSort st \<noteq> NoSort\<close> d v show ?thesis
      by (simp add: filterEffect_def input_def alloc_def js_sort_scores nth_append
          nth_list_update)
  qed
qed

lemma filterEffect_no_data: "data st = None \<Longrightarrow> filterEffect st = Inr st"
  by (simp add: filterEffect_def)

text \<open>
  On a dataset without records, the effect publishes \<^verbatim>\<open>undefined\<close> when neither a
  category nor a sort direction is selected, and throws otherwise.
\<close>

lemma filterEffect_no_records:
  assumes "data st = Some d" and "vulnerabilities d = None"
  shows "filterEffect st
     = (if selectedCategory st = [] \<and> cvssSort st = NoSort
        then Inr (st\<lparr>filteredVulns := None\<rparr>) else Inl TypeError)"
  using assms by (simp add: filterEffect_def)

text \<open>
  C4. With a dataset loaded and a category selected (the selector is not the empty
  string, which stands for all categories), the effect does not throw, and the records
  it publishes are exactly the records of the dataset that have an affected product
  whose category is equal, as a string, to the selected one: the same records with the
  same multiplicities whatever the sort direction and, when no sort direction is
  selected, the same sequence in the original order. When no record matches, the
  published sequence is empty. The comparison is with the category itself, not with
  its display label. This is for every dataset that has a record sequence; on an object
  without one, which the unchecked cast of the loader lets through, the effect throws a
  \<^verbatim>\<open>TypeError\<close>.
\<close>

theorem filterEffect_category:
  assumes "data st = Some d" and "selectedCategory st \<noteq> []"
  shows "case vulnerabilities d of
       None \<Rightarrow> filterEffect st = Inl TypeError
     | Some src \<Rightarrow>
         (\<exists>st' a. filterEffect st = Inr st' \<and> filteredVulns st' = Some a
           \<and> mset (heap st' ! a)
             = mset (filter (\<lambda>v. \<exists>p \<in> set (affected_products v). category p = selectedCategory st)
                       (heap st ! src))
           \<and> (cvssSort st = NoSort \<longrightarrow>
                heap st' ! a
                = filter (\<lambda>v. \<exists>p \<in> set (affected_products v). category p = selectedCategory st)
                    (heap st ! src))
           \<and> ((\<forall>v \<in> set (heap st ! src).
                  \<forall>p \<in> set (affected_products v). category p \<noteq> selectedCategory st) \<longrightarrow>
                heap st' ! a = []))"
proof (cases "vulnerabilities d")
  case None
  with assms show ?thesis by (simp add: filterEffect_no_records)
next
  case (Some src)
  let ?P = "\<lambda>v. \<exists>p \<in> set (affected_products v). category p = selectedCategory st"
  let ?src = "heap st ! src"
  have same: "filter (inCategory (selectedCategory st)) ?src = filter ?P ?src"
    by (rule filter_cong) (simp_all add: inCategory_iff)
  from filterEffect_result [OF assms(1) Some] assms(2) obtain st' a where
    run: "filterEffect st = Inr st'" and at: "filteredVulns st' = Some a"
    and res: "heap st' ! a
       = (if cvssSort st = NoSort then filter ?P ?src
          else sort_key (\<lambda>v. if cvssSort st = Desc then - scoreOrZero v else scoreOrZero v)
                 (filter ?P ?src))"
    unfolding same by auto
  from res have perm: "mset (heap st' ! a) = mset (filter ?P ?src)"
    by simp
  from res have plain: "cvssSort st = NoSort \<longrightarrow> heap st' ! a = filter ?P ?src"
    by simp
  have none: "(\<forall>v \<in> set ?src. \<forall>p \<in> set (affected_products v). category p \<noteq> selectedCategory st)
      \<longrightarrow> heap st' ! a = []"
  proof
    assume "\<forall>v \<in> set ?src. \<forall>p \<in> set (affected_products v). category p \<noteq> selectedCategory st"
    then have "filter ?P ?src = []" by (auto simp: filter_empty_conv)
    with perm show "heap st' ! a = []" by simp
  qed
  from run at perm plain none
  have "\<exists>st' a. filterEffect st = Inr st' \<and> filteredVulns st' = Some a
           \<and> mset (heap st' ! a) = mset (filter ?P ?src)
           \<and> (cvssSort st = NoSort \<longrightarrow> heap st' ! a = filter ?P ?src)
           \<and> ((\<forall>v \<in> set ?src. \<forall>p \<in> set (affected_products v).
                  category p \<noteq> selectedCategory st) \<longrightarrow> heap st' ! a = [])"
    by blast
  with Some show ?thesis by simp
qed

theorem filterEffect_category_witness:
  "(\<exists>st' a. filterEffect (monthShown\<lparr>selectedCategory := ''Windows''\<rparr>) = Inr st'
      \<and> filteredVulns st' = Some a \<and> heap st' ! a = [recWindows, recBoth])
   \<and> (\<exists>st' a. filterEffect (monthShown\<lparr>selectedCategory := ''Azure Linux (CBL-Mariner)''\<rparr>) = Inr st'
      \<and> filteredVulns st' = Some a \<and> heap st' ! a = [])
   \<and> displayCategory ''Mariner'' = ''Azure Linux (CBL-Mariner)''
   \<and> filterEffect (monthShown\<lparr>data := Some \<lparr>metadata = metadata monthBody,
                                             products = products monthBody,
                                             vulnerabilities = None\<rparr>,
                                selectedCategory := ''Windows''\<rparr>) = Inl TypeError"
proof -
  let ?d = "\<lparr>metadata = metadata monthBody, products = products monthBody,
             vulnerabilities = Some (1::nat)\<rparr>"
  let ?e = "\<lparr>metadata = metadata monthBody, products = products monthBody,
             vulnerabilities = None :: nat option\<rparr>"
  let ?w = "monthShown\<lparr>selectedCategory := ''Windows''\<rparr>"
  let ?a = "monthShown\<lparr>selectedCategory := ''Azure Linux (CBL-Mariner)''\<rparr>"
  let ?n = "monthShown\<lparr>data := Some ?e, selectedCategory := ''Windows''\<rparr>"
  have dw: "data ?w = Some ?d" and da: "data ?a = Some ?d"
    by (simp_all add: monthShown_def initial_def)
  have dn: "data ?n = Some ?e" by simp
  have cw: "selectedCategory ?w \<noteq> []" and ca: "selectedCategory ?a \<noteq> []"
    and cn: "selectedCategory ?n \<noteq> []"
    by simp_all
  have sw: "cvssSort ?w = NoSort" and sa: "cvssSort ?a = NoSort"
    by (simp_all add: monthShown_def initial_def)
  have fw: "filter (\<lambda>v. \<exists>p \<in> set (affected_products v). category p = selectedCategory ?w)
              (heap ?w ! 1) = [recWindows, recBoth]"
    by (simp add: monthShown_def initial_def recMariner_def recWindows_def recBoth_def)
  have fa: "filter (\<lambda>v. \<exists>p \<in> set (affected_products v). category p = selectedCategory ?a)
              (heap ?a ! 1) = []"
    by (simp add: monthShown_def initial_def recMariner_def recWindows_def recBoth_def)
  from filterEffect_category [OF dw cw]
  have "\<exists>st' a. filterEffect ?w = Inr st' \<and> filteredVulns st' = Some a
      \<and> (cvssSort ?w = NoSort \<longrightarrow>
           heap st' ! a
           = filter (\<lambda>v. \<exists>p \<in> set (affected_products v). category p = selectedCategory ?w)
               (heap ?w ! 1))"
    by (simp del: One_nat_def) blast
  with sw fw
  have w: "\<exists>st' a. filterEffect ?w = Inr st' \<and> filteredVulns st' = Some a
      \<and> heap st' ! a = [recWindows, recBoth]"
    by metis
  from filterEffect_category [OF da ca]
  have "\<exists>st' a. filterEffect ?a = Inr st' \<and> filteredVulns st' = Some a
      \<and> (cvssSort ?a = NoSort \<longrightarrow>
           heap st' ! a
           = filter (\<lambda>v. \<exists>p \<in> set (affected_products v). category p = selectedCategory ?a)
               (heap ?a ! 1))"
    by (simp del: One_nat_def) blast
  with sa fa
  have a: "\<exists>st' a. filterEffect ?a = Inr st' \<and> filteredVulns st' = Some a \<and> heap st' ! a = []"
    by metis
  have l: "displayCategory ''Mariner'' = ''Azure Linux (CBL-Mariner)''"
    by (simp add: displayCategory_def)
  from filterEffect_category [OF dn cn]
  have n: "filterEffect ?n = Inl TypeError"
    by simp
  from w a l n show ?thesis by blast
qed

text \<open>
  C6. With a dataset loaded and a sort direction selected, the effect does not throw and
  publishes the stable sort of its filtered input (all records when no category is
  selected) by score, an absent score counting as 0: ascending for \<open>asc\<close>, descending
  for \<open>desc\<close>. The output is a permutation of the filtered input, so the two directions
  give the same multiset, and the records are the records of the input, each with the
  severity class it had. The output is a new array: every array that existed before,
  the source sequence among them, has the contents it had, and the dataset of the state
  is the same. This is for every dataset that has a record sequence; on an object
  without one, which the unchecked cast of the loader lets through, the effect throws a
  \<^verbatim>\<open>TypeError\<close>.
\<close>

theorem filterEffect_sorted:
  assumes "data st = Some d" and "cvssSort st \<noteq> NoSort"
  shows "case vulnerabilities d of
       None \<Rightarrow> filterEffect st = Inl TypeError
     | Some src \<Rightarrow>
         (\<exists>st' a. filterEffect st = Inr st' \<and> filteredVulns st' = Some a
           \<and> mset (heap st' ! a)
             = mset (if selectedCategory st = [] then heap st ! src
                     else filter (inCategory (selectedCategory st)) (heap st ! src))
           \<and> (cvssSort st = Asc \<longrightarrow>
                sorted (map scoreOrZero (heap st' ! a))
                \<and> heap st' ! a
                  = sort_key scoreOrZero
                      (if selectedCategory st = [] then heap st ! src
                       else filter (inCategory (selectedCategory st)) (heap st ! src)))
           \<and> (cvssSort st = Desc \<longrightarrow>
                sorted (rev (map scoreOrZero (heap st' ! a)))
                \<and> heap st' ! a
                  = sort_key (\<lambda>v. - scoreOrZero v)
                      (if selectedCategory st = [] then heap st ! src
                       else filter (inCategory (selectedCategory st)) (heap st ! src)))
           \<and> (\<forall>v. scoreOrZero v = (case cvss_score v of None \<Rightarrow> 0 | Some s \<Rightarrow> s))
           \<and> image_mset (\<lambda>v. getCvssSeverity (cvss_score v)) (mset (heap st' ! a))
             = image_mset (\<lambda>v. getCvssSeverity (cvss_score v))
                 (mset (if selectedCategory st = [] then heap st ! src
                        else filter (inCategory (selectedCategory st)) (heap st ! src)))
           \<and> length (heap st) \<le> a
           \<and> (\<forall>b < length (heap st). heap st' ! b = heap st ! b)
           \<and> data st' = data st
           \<and> (\<exists>up down u w. filterEffect (st\<lparr>cvssSort := Asc\<rparr>) = Inr up
                 \<and> filterEffect (st\<lparr>cvssSort := Desc\<rparr>) = Inr down
                 \<and> filteredVulns up = Some u \<and> filteredVulns down = Some w
                 \<and> mset (heap up ! u) = mset (heap down ! w)))"
proof (cases "vulnerabilities d")
  case None
  with assms show ?thesis by (simp add: filterEffect_no_records)
next
  case (Some src)
  let ?input = "if selectedCategory st = [] then heap st ! src
                else filter (inCategory (selectedCategory st)) (heap st ! src)"
  from filterEffect_result [OF assms(1) Some] assms(2) obtain st' a where
    run: "filterEffect st = Inr st'" and at: "filteredVulns st' = Some a"
    and res: "heap st' ! a
       = sort_key (\<lambda>v. if cvssSort st = Desc then - scoreOrZero v else scoreOrZero v) ?input"
    and old: "\<forall>b < length (heap st). heap st' ! b = heap st ! b"
    and new: "length (heap st) \<le> a"
    and frame: "st'\<lparr>heap := heap st, filteredVulns := filteredVulns st\<rparr> = st"
    by auto
  from res have perm: "mset (heap st' ! a) = mset ?input"
    by simp
  have asc: "cvssSort st = Asc \<longrightarrow>
      sorted (map scoreOrZero (heap st' ! a))
      \<and> heap st' ! a = sort_key scoreOrZero ?input"
    using res by (simp add: sorted_sort_key)
  have desc: "cvssSort st = Desc \<longrightarrow>
      sorted (rev (map scoreOrZero (heap st' ! a)))
      \<and> heap st' ! a = sort_key (\<lambda>v. - scoreOrZero v) ?input"
  proof
    assume dir: "cvssSort st = Desc"
    with res have eq: "heap st' ! a = sort_key (\<lambda>v. - scoreOrZero v) ?input"
      by simp
    have "sorted (map (\<lambda>v. - scoreOrZero v) (sort_key (\<lambda>v. - scoreOrZero v) ?input))"
      by (rule sorted_sort_key)
    then have "sorted (map uminus (map scoreOrZero (heap st' ! a)))"
      unfolding eq by (simp add: comp_def)
    then have "sorted (rev (map scoreOrZero (heap st' ! a)))"
      by (simp add: sorted_wrt_rev sorted_map sorted_wrt_map)
    with eq show "sorted (rev (map scoreOrZero (heap st' ! a)))
      \<and> heap st' ! a = sort_key (\<lambda>v. - scoreOrZero v) ?input"
      by simp
  qed
  have key: "\<forall>v. scoreOrZero v = (case cvss_score v of None \<Rightarrow> 0 | Some s \<Rightarrow> s)"
    by (simp add: scoreOrZero_def)
  have sev: "image_mset (\<lambda>v. getCvssSeverity (cvss_score v)) (mset (heap st' ! a))
       = image_mset (\<lambda>v. getCvssSeverity (cvss_score v)) (mset ?input)"
    unfolding perm ..
  from frame have dat: "data st' = data st"
    by (metis state.select_convs(2) state.surjective state.update_convs(1,5))
  have both: "\<exists>up down u w. filterEffect (st\<lparr>cvssSort := Asc\<rparr>) = Inr up
           \<and> filterEffect (st\<lparr>cvssSort := Desc\<rparr>) = Inr down
           \<and> filteredVulns up = Some u \<and> filteredVulns down = Some w
           \<and> mset (heap up ! u) = mset (heap down ! w)"
  proof -
    from filterEffect_result [of "st\<lparr>cvssSort := Asc\<rparr>" d src] assms(1) Some
    obtain up u where u: "filterEffect (st\<lparr>cvssSort := Asc\<rparr>) = Inr up"
      and ua: "filteredVulns up = Some u"
      and ur: "heap up ! u = sort_key scoreOrZero ?input"
      by auto
    from filterEffect_result [of "st\<lparr>cvssSort := Desc\<rparr>" d src] assms(1) Some
    obtain down w where w: "filterEffect (st\<lparr>cvssSort := Desc\<rparr>) = Inr down"
      and wa: "filteredVulns down = Some w"
      and wr: "heap down ! w = sort_key (\<lambda>v. - scoreOrZero v) ?input"
      by auto
    from ur wr have "mset (heap up ! u) = mset (heap down ! w)"
      by simp
    with u w ua wa show ?thesis by blast
  qed
  from run at perm asc desc key sev new old dat both
  have "\<exists>st' a. filterEffect st = Inr st' \<and> filteredVulns st' = Some a
           \<and> mset (heap st' ! a) = mset ?input
           \<and> (cvssSort st = Asc \<longrightarrow>
                sorted (map scoreOrZero (heap st' ! a))
                \<and> heap st' ! a = sort_key scoreOrZero ?input)
           \<and> (cvssSort st = Desc \<longrightarrow>
                sorted (rev (map scoreOrZero (heap st' ! a)))
                \<and> heap st' ! a = sort_key (\<lambda>v. - scoreOrZero v) ?input)
           \<and> (\<forall>v. scoreOrZero v = (case cvss_score v of None \<Rightarrow> 0 | Some s \<Rightarrow> s))
           \<and> image_mset (\<lambda>v. getCvssSeverity (cvss_score v)) (mset (heap st' ! a))
             = image_mset (\<lambda>v. getCvssSeverity (cvss_score v)) (mset ?input)
           \<and> length (heap st) \<le> a
           \<and> (\<forall>b < length (heap st). heap st' ! b = heap st ! b)
           \<and> data st' = data st
           \<and> (\<exists>up down u w. filterEffect (st\<lparr>cvssSort := Asc\<rparr>) = Inr up
                 \<and> filterEffect (st\<lparr>cvssSort := Desc\<rparr>) = Inr down
                 \<and> filteredVulns up = Some u \<and> filteredVulns down = Some w
                 \<and> mset (heap up ! u) = mset (heap down ! w))"
    by blast
  with Some show ?thesis by simp
qed

theorem filterEffect_sorted_witness:
  "(\<exists>st' a. filterEffect (monthShown\<lparr>cvssSort := Desc\<rparr>) = Inr st'
      \<and> filteredVulns st' = Some a
      \<and> heap st' ! a = [recBoth, recWindows, recMariner]
      \<and> heap st' ! 1 = [recMariner, recWindows, recBoth])
   \<and> (\<exists>st' a. filterEffect (monthShown\<lparr>cvssSort := Asc\<rparr>) = Inr st'
      \<and> filteredVulns st' = Some a
      \<and> heap st' ! a = [recMariner, recWindows, recBoth])
   \<and> getCvssSeverity (cvss_score recMariner) = ''None''
   \<and> filterEffect (monthShown\<lparr>data := Some \<lparr>metadata = metadata monthBody,
                                             products = products monthBody,
                                             vulnerabilities = None\<rparr>,
                                cvssSort := Desc\<rparr>) = Inl TypeError"
proof -
  let ?d = "\<lparr>metadata = metadata monthBody, products = products monthBody,
             vulnerabilities = Some (1::nat)\<rparr>"
  let ?e = "\<lparr>metadata = metadata monthBody, products = products monthBody,
             vulnerabilities = None :: nat option\<rparr>"
  let ?down = "monthShown\<lparr>cvssSort := Desc\<rparr>"
  let ?up = "monthShown\<lparr>cvssSort := Asc\<rparr>"
  let ?n = "monthShown\<lparr>data := Some ?e, cvssSort := Desc\<rparr>"
  have dd: "data ?down = Some ?d" and du: "data ?up = Some ?d"
    by (simp_all add: monthShown_def initial_def)
  have dn: "data ?n = Some ?e" by simp
  have src: "vulnerabilities ?d = Some 1" by simp
  have sd: "cvssSort ?down = Desc" and su: "cvssSort ?up = Asc"
    by simp_all
  then have nd: "cvssSort ?down \<noteq> NoSort" and nu: "cvssSort ?up \<noteq> NoSort"
    by simp_all
  have nn: "cvssSort ?n \<noteq> NoSort" by simp
  have cd: "selectedCategory ?down = []" and cu: "selectedCategory ?up = []"
    by (simp_all add: monthShown_def initial_def)
  have hd: "heap ?down ! 1 = [recMariner, recWindows, recBoth]"
    and hu: "heap ?up ! 1 = [recMariner, recWindows, recBoth]"
    and len: "1 < length (heap ?down)"
    by (simp_all add: monthShown_def initial_def)
  have kd: "sort_key (\<lambda>v. - scoreOrZero v) [recMariner, recWindows, recBoth]
      = [recBoth, recWindows, recMariner]"
    by (simp add: scoreOrZero_def recMariner_def recWindows_def recBoth_def)
  have ku: "sort_key scoreOrZero [recMariner, recWindows, recBoth]
      = [recMariner, recWindows, recBoth]"
    by (simp add: scoreOrZero_def recMariner_def recWindows_def recBoth_def)
  from filterEffect_sorted [OF dd nd, unfolded src option.case]
  obtain st' a where
    run: "filterEffect ?down = Inr st'" and at: "filteredVulns st' = Some a"
    and res: "cvssSort ?down = Desc \<longrightarrow> heap st' ! a
       = sort_key (\<lambda>v. - scoreOrZero v)
           (if selectedCategory ?down = [] then heap ?down ! 1
            else filter (inCategory (selectedCategory ?down)) (heap ?down ! 1))"
    and old: "\<forall>b < length (heap ?down). heap st' ! b = heap ?down ! b"
    by blast
  from res sd have "heap st' ! a
       = sort_key (\<lambda>v. - scoreOrZero v)
           (if selectedCategory ?down = [] then heap ?down ! 1
            else filter (inCategory (selectedCategory ?down)) (heap ?down ! 1))"
    by (rule mp)
  with cd hd kd have e2: "heap st' ! a = [recBoth, recWindows, recMariner]"
    by simp
  from old len have "heap st' ! 1 = heap ?down ! 1" by blast
  with hd have e3: "heap st' ! 1 = [recMariner, recWindows, recBoth]" by simp
  from run at e2 e3
  have down: "\<exists>st' a. filterEffect ?down = Inr st' \<and> filteredVulns st' = Some a
      \<and> heap st' ! a = [recBoth, recWindows, recMariner]
      \<and> heap st' ! 1 = [recMariner, recWindows, recBoth]"
    by blast
  from filterEffect_sorted [OF du nu, unfolded src option.case]
  obtain st'' a' where
    run': "filterEffect ?up = Inr st''" and at': "filteredVulns st'' = Some a'"
    and res': "cvssSort ?up = Asc \<longrightarrow> heap st'' ! a'
       = sort_key scoreOrZero
           (if selectedCategory ?up = [] then heap ?up ! 1
            else filter (inCategory (selectedCategory ?up)) (heap ?up ! 1))"
    by blast
  from res' su have "heap st'' ! a'
       = sort_key scoreOrZero
           (if selectedCategory ?up = [] then heap ?up ! 1
            else filter (inCategory (selectedCategory ?up)) (heap ?up ! 1))"
    by (rule mp)
  with cu hu ku have "heap st'' ! a' = [recMariner, recWindows, recBoth]"
    by simp
  with run' at'
  have up: "\<exists>st' a. filterEffect ?up = Inr st' \<and> filteredVulns st' = Some a
      \<and> heap st' ! a = [recMariner, recWindows, recBoth]"
    by blast
  have sev: "getCvssSeverity (cvss_score recMariner) = ''None''"
    by (simp add: recMariner_def getCvssSeverity_def)
  from filterEffect_sorted [OF dn nn]
  have n: "filterEffect ?n = Inl TypeError"
    by simp
  from down up sev n show ?thesis by blast
qed

section \<open>Loading: verification\<close>

lemma set_fromSet: "set (fromSet xs) = set xs"
  by (induction xs) auto

lemma distinct_fromSet: "distinct (fromSet xs)"
  by (induction xs) (auto simp: set_fromSet)

text \<open>
  The outcomes of the second effect for a selected month. A body that is JSON and has
  the product mapping becomes the dataset, whatever else it has; without the mapping
  the handler throws after \<^verbatim>\<open>setData(json)\<close>, and the failure handler runs.
\<close>

lemma monthEffect_success:
  assumes "selected st = Some file" and "file \<noteq> []" and "products body = Some ps"
  shows "monthEffect (Inr (Response True (Inr body))) st
   = (Inr (),
      st\<lparr> loading := False,
          heap := heap st @ (case vulnerabilities body of None \<Rightarrow> [] | Some vulns \<Rightarrow> [vulns]),
          data := Some \<lparr>metadata = metadata body, products = Some ps,
                        vulnerabilities = map_option (\<lambda>vulns. length (heap st))
                                            (vulnerabilities body)\<rparr>,
          categories := sort (fromSet (map (\<lambda>p. category p) (map snd ps))),
          selectedCategory := [],
          showSummary := True \<rparr>)"
  using assms
  by (cases "vulnerabilities body")
    (simp_all add: monthEffect_def then_do_def catch_do_def finally_do_def monthLoaded_def
      alloc_def)

lemma monthEffect_no_products:
  assumes "selected st = Some file" and "file \<noteq> []" and "products body = None"
  shows "monthEffect (Inr (Response True (Inr body))) st
   = (Inr (),
      st\<lparr> loading := False,
          heap := heap st @ (case vulnerabilities body of None \<Rightarrow> [] | Some vulns \<Rightarrow> [vulns]),
          data := None, categories := [],
          console := console st @ [(''Error loading patch content:'', TypeError)] \<rparr>)"
  using assms
  by (cases "vulnerabilities body")
    (simp_all add: monthEffect_def then_do_def catch_do_def finally_do_def monthLoaded_def
      monthFailed_def alloc_def)

lemma monthEffect_failure:
  assumes "selected st = Some file" and "file \<noteq> []"
  shows "monthEffect (Inl e) st
     = (Inr (), st\<lparr>loading := False, data := None, categories := [],
                   console := console st @ [(''Error loading patch content:'', e)]\<rparr>)"
    and "monthEffect (Inr (Response False j)) st
     = (Inr (), st\<lparr>loading := False, data := None, categories := [],
                   console := console st @ [(''Error loading patch content:'',
                                             Error (''Failed to fetch '' @ file))]\<rparr>)"
    and "monthEffect (Inr (Response True (Inl e))) st
     = (Inr (), st\<lparr>loading := False, data := None, categories := [],
                   console := console st @ [(''Error loading patch content:'', e)]\<rparr>)"
  using assms
  by (simp_all add: monthEffect_def then_do_def catch_do_def finally_do_def monthFailed_def)

lemma monthEffect_not_selected:
  "selected st = None \<or> selected st = Some [] \<Longrightarrow> monthEffect fetched st = (Inr (), st)"
  by (auto simp: monthEffect_def)


lemma indexEffect_outcomes:
  "indexEffect (Inr (Response True (Inr entries))) st
   = (Inr (), case groupIndex entries of
                Inr grouped \<Rightarrow> st\<lparr>patches := grouped\<rparr>
              | Inl e \<Rightarrow> st\<lparr>console := console st @ [(''Error loading index.json:'', e)]\<rparr>)"
  "indexEffect (Inl e) st
   = (Inr (), st\<lparr>console := console st @ [(''Error loading index.json:'', e)]\<rparr>)"
  "indexEffect (Inr (Response False j)) st
   = (Inr (), st\<lparr>console := console st @ [(''Error loading index.json:'',
                                            Error ''Failed to fetch index.json'')]\<rparr>)"
  "indexEffect (Inr (Response True (Inl e))) st
   = (Inr (), st\<lparr>console := console st @ [(''Error loading index.json:'', e)]\<rparr>)"
  by (simp_all add: indexEffect_def then_do_def catch_do_def split: sum.splits)

text \<open>
  C8 as stated fails: the handler of a loaded month resets the category and the view,
  and has no assignment to the sort direction. A month loaded while \<open>desc\<close> is selected
  leaves \<open>desc\<close> selected.
\<close>

theorem monthEffect_sort_kept_counterexample:
  "cvssSort (snd (monthEffect (Inr (Response True (Inr monthBody)))
       (monthShown\<lparr>selectedCategory := ''Windows'', cvssSort := Desc\<rparr>))) = Desc
   \<and> Desc \<noteq> NoSort
   \<and> selectedCategory (snd (monthEffect (Inr (Response True (Inr monthBody)))
       (monthShown\<lparr>selectedCategory := ''Windows'', cvssSort := Desc\<rparr>))) = []"
  by (simp add: monthEffect_def then_do_def catch_do_def finally_do_def monthLoaded_def
      alloc_def monthShown_def initial_def monthBody_def)

text \<open>
  C8, amended. Whenever the fetch of a selected month succeeds, with a body that has the
  product mapping, the chain of the effect is fulfilled and in the state after it: the
  category list is sorted lexicographically, has no duplicate and holds exactly the
  categories of the products of the dataset; the category filter is reset to all; the
  summary view is selected; the dataset is the one that was received; loading is over;
  and the sort direction is the one that was selected before. A body without the product
  mapping, which the unchecked cast lets through, ends as a failed fetch does, the sort
  direction again as it was.
\<close>

theorem monthEffect_loaded:
  assumes "selected st = Some file" and "file \<noteq> []"
  shows "case products body of
       None \<Rightarrow>
         (\<exists>st'. monthEffect (Inr (Response True (Inr body))) st = (Inr (), st')
            \<and> data st' = None \<and> categories st' = []
            \<and> selectedCategory st' = selectedCategory st
            \<and> cvssSort st' = cvssSort st
            \<and> \<not> loading st')
     | Some ps \<Rightarrow>
         (\<exists>st'. monthEffect (Inr (Response True (Inr body))) st = (Inr (), st')
            \<and> sorted (categories st') \<and> distinct (categories st')
            \<and> set (categories st') = (\<lambda>p. category (snd p)) ` set ps
            \<and> categories st' = sort (fromSet (map (\<lambda>p. category p) (map snd ps)))
            \<and> selectedCategory st' = []
            \<and> showSummary st'
            \<and> cvssSort st' = cvssSort st
            \<and> \<not> loading st'
            \<and> (\<exists>d. data st' = Some d \<and> metadata d = metadata body
                  \<and> products d = products body
                  \<and> map_option (\<lambda>a. heap st' ! a) (vulnerabilities d)
                    = vulnerabilities body))"
proof (cases "products body")
  case None
  let ?st' = "st\<lparr> loading := False,
          heap := heap st @ (case vulnerabilities body of None \<Rightarrow> [] | Some vulns \<Rightarrow> [vulns]),
          data := None, categories := [],
          console := console st @ [(''Error loading patch content:'', TypeError)] \<rparr>"
  have run: "monthEffect (Inr (Response True (Inr body))) st = (Inr (), ?st')"
    by (rule monthEffect_no_products [OF assms None])
  have rest: "data ?st' = None \<and> categories ?st' = []
      \<and> selectedCategory ?st' = selectedCategory st \<and> cvssSort ?st' = cvssSort st
      \<and> \<not> loading ?st'"
    by simp
  from run rest
  have "\<exists>st'. monthEffect (Inr (Response True (Inr body))) st = (Inr (), st')
            \<and> data st' = None \<and> categories st' = []
            \<and> selectedCategory st' = selectedCategory st
            \<and> cvssSort st' = cvssSort st
            \<and> \<not> loading st'"
    by blast
  with None show ?thesis by simp
next
  case (Some ps)
  let ?cats = "sort (fromSet (map (\<lambda>p. category p) (map snd ps)))"
  let ?st' = "st\<lparr> loading := False,
          heap := heap st @ (case vulnerabilities body of None \<Rightarrow> [] | Some vulns \<Rightarrow> [vulns]),
          data := Some \<lparr>metadata = metadata body, products = Some ps,
                        vulnerabilities = map_option (\<lambda>vulns. length (heap st))
                                            (vulnerabilities body)\<rparr>,
          categories := ?cats,
          selectedCategory := [],
          showSummary := True \<rparr>"
  have run: "monthEffect (Inr (Response True (Inr body))) st = (Inr (), ?st')"
    by (rule monthEffect_success [OF assms Some])
  have cats: "categories ?st' = ?cats" by simp
  have srt: "sorted (categories ?st')" unfolding cats by simp
  have dst: "distinct (categories ?st')" unfolding cats by (simp add: distinct_fromSet)
  have mem: "set (categories ?st') = (\<lambda>p. category (snd p)) ` set ps"
    unfolding cats by (auto simp: set_fromSet)
  have rest: "selectedCategory ?st' = [] \<and> showSummary ?st' \<and> cvssSort ?st' = cvssSort st
      \<and> \<not> loading ?st'"
    by simp
  have dat: "\<exists>d. data ?st' = Some d \<and> metadata d = metadata body \<and> products d = products body
           \<and> map_option (\<lambda>a. heap ?st' ! a) (vulnerabilities d) = vulnerabilities body"
    using Some by (cases "vulnerabilities body") simp_all
  from run cats srt dst mem rest dat
  have "\<exists>st'. monthEffect (Inr (Response True (Inr body))) st = (Inr (), st')
            \<and> sorted (categories st') \<and> distinct (categories st')
            \<and> set (categories st') = (\<lambda>p. category (snd p)) ` set ps
            \<and> categories st' = ?cats
            \<and> selectedCategory st' = []
            \<and> showSummary st'
            \<and> cvssSort st' = cvssSort st
            \<and> \<not> loading st'
            \<and> (\<exists>d. data st' = Some d \<and> metadata d = metadata body
                  \<and> products d = products body
                  \<and> map_option (\<lambda>a. heap st' ! a) (vulnerabilities d)
                    = vulnerabilities body)"
    by blast
  with Some show ?thesis by simp
qed

theorem monthEffect_loaded_witness:
  "selected (monthShown\<lparr>selectedCategory := ''Windows'', cvssSort := Desc\<rparr>)
     = Some ''2024-Jan.json''
   \<and> (\<exists>st'. monthEffect (Inr (Response True (Inr monthBody)))
               (monthShown\<lparr>selectedCategory := ''Windows'', cvssSort := Desc\<rparr>) = (Inr (), st')
         \<and> categories st' = [''Mariner'', ''Windows'']
         \<and> selectedCategory st' = [] \<and> cvssSort st' = Desc)
   \<and> (\<exists>st'. monthEffect (Inr (Response True (Inr (monthBody\<lparr>products := None\<rparr>))))
               (monthShown\<lparr>selectedCategory := ''Windows'', cvssSort := Desc\<rparr>) = (Inr (), st')
         \<and> data st' = None \<and> categories st' = []
         \<and> selectedCategory st' = ''Windows'' \<and> cvssSort st' = Desc)"
proof -
  let ?st = "monthShown\<lparr>selectedCategory := ''Windows'', cvssSort := Desc\<rparr>"
  let ?ps = "[(''7'', \<lparr>name = ''Windows 11'', category = ''Windows''\<rparr>),
              (''12'', \<lparr>name = ''Azure Linux 3.0'', category = ''Mariner''\<rparr>),
              (''8'', \<lparr>name = ''Windows 10'', category = ''Windows''\<rparr>)]"
  have sel: "selected ?st = Some ''2024-Jan.json''"
    by (simp add: monthShown_def initial_def)
  have ne: "''2024-Jan.json'' \<noteq> []" by simp
  have dir: "cvssSort ?st = Desc" and cat: "selectedCategory ?st = ''Windows''" by simp_all
  have ps: "products monthBody = Some ?ps"
    by (simp add: monthBody_def)
  have np: "products (monthBody\<lparr>products := None\<rparr>) = None"
    by simp
  have cats: "sort (fromSet (map (\<lambda>p. category p) (map snd ?ps))) = [''Mariner'', ''Windows'']"
    by simp
  from monthEffect_loaded [OF sel ne, of monthBody, unfolded ps option.case] obtain st' where
    "monthEffect (Inr (Response True (Inr monthBody))) ?st = (Inr (), st')"
    "categories st' = sort (fromSet (map (\<lambda>p. category p) (map snd ?ps)))"
    "selectedCategory st' = []" "cvssSort st' = cvssSort ?st"
    by blast
  with cats dir
  have loaded: "\<exists>st'. monthEffect (Inr (Response True (Inr monthBody))) ?st = (Inr (), st')
         \<and> categories st' = [''Mariner'', ''Windows'']
         \<and> selectedCategory st' = [] \<and> cvssSort st' = Desc"
    by metis
  from monthEffect_loaded [OF sel ne, of "monthBody\<lparr>products := None\<rparr>",
      unfolded np option.case]
  obtain st'' where
    "monthEffect (Inr (Response True (Inr (monthBody\<lparr>products := None\<rparr>)))) ?st = (Inr (), st'')"
    "data st'' = None" "categories st'' = []"
    "selectedCategory st'' = selectedCategory ?st" "cvssSort st'' = cvssSort ?st"
    by blast
  with dir cat
  have thrown: "\<exists>st'. monthEffect (Inr (Response True (Inr (monthBody\<lparr>products := None\<rparr>)))) ?st
           = (Inr (), st')
         \<and> data st' = None \<and> categories st' = []
         \<and> selectedCategory st' = ''Windows'' \<and> cvssSort st' = Desc"
    by metis
  from sel loaded thrown show ?thesis by blast
qed




section \<open>Addresses stay valid\<close>

text \<open>
  The addresses of the state are addresses of arrays in the initial state and after each
  effect, so that the reads of the heap in the effects are reads of arrays that exist.
\<close>

lemma wf_state_initial: "wf_state initial"
  by (simp add: wf_state_def initial_def)

lemma wf_state_monthEffect:
  assumes "wf_state st"
  shows "wf_state (snd (monthEffect fetched st))"
proof (cases "selected st = None \<or> selected st = Some []")
  case True
  with assms show ?thesis by (simp add: monthEffect_not_selected)
next
  case False
  then obtain f where sel: "selected st = Some f" "f \<noteq> []" by auto
  show ?thesis
  proof (cases fetched)
    case (Inl e)
    with assms monthEffect_failure(1) [OF sel, of e] show ?thesis
      by (simp add: wf_state_def split: option.splits)
  next
    case (Inr res)
    obtain okay j where res: "res = Response okay j" by (cases res)
    show ?thesis
    proof (cases okay)
      case False
      with Inr res assms monthEffect_failure(2) [OF sel, of j] show ?thesis
        by (simp add: wf_state_def split: option.splits)
    next
      case True
      show ?thesis
      proof (cases j)
        case (Inl e)
        with True Inr res assms monthEffect_failure(3) [OF sel, of e] show ?thesis
          by (simp add: wf_state_def split: option.splits)
      next
        case (Inr body)
        show ?thesis
        proof (cases "products body")
          case None
          with Inr True \<open>fetched = Inr res\<close> res assms monthEffect_no_products [OF sel, of body]
          show ?thesis
            by (auto simp: wf_state_def split: option.splits)
        next
          case (Some ps)
          with Inr True \<open>fetched = Inr res\<close> res assms monthEffect_success [OF sel, of body ps]
          show ?thesis
            by (auto simp: wf_state_def split: option.splits)
        qed
      qed
    qed
  qed
qed

lemma wf_state_filterEffect:
  assumes "wf_state st" and "filterEffect st = Inr st'"
  shows "wf_state st'"
proof (cases "data st")
  case None
  with assms show ?thesis by (simp add: filterEffect_no_data)
next
  case (Some d)
  show ?thesis
  proof (cases "vulnerabilities d")
    case None
    with Some assms show ?thesis
      by (auto simp: filterEffect_no_records wf_state_def split: if_splits)
  next
    case (Some src)
    from filterEffect_result [OF \<open>data st = Some d\<close> Some] assms(2) obtain a where
      at: "filteredVulns st' = Some a"
      and len: "length (heap st) \<le> length (heap st')"
      and new: "selectedCategory st \<noteq> [] \<or> cvssSort st \<noteq> NoSort \<longrightarrow> a < length (heap st')"
      and same: "selectedCategory st = [] \<and> cvssSort st = NoSort \<longrightarrow> a = src"
      and frame: "st'\<lparr>heap := heap st, filteredVulns := filteredVulns st\<rparr> = st"
      by auto
    from frame have "data st' = data st"
      by (metis state.select_convs(2) state.surjective state.update_convs(1,5))
    with \<open>data st = Some d\<close> have d': "data st' = Some d" by simp
    from assms(1) \<open>data st = Some d\<close> Some have v: "src < length (heap st)"
      by (simp add: wf_state_def)
    with len have v': "src < length (heap st')" by simp
    from new same v' have "a < length (heap st')" by auto
    with at d' Some v' show ?thesis by (simp add: wf_state_def)
  qed
qed

section \<open>The earlier text viewer: what it does\<close>

text \<open>
  The index handler of the text viewer orders a year by month as the later one does, for
  identifiers ending in \<open>.txt\<close>; having no check of the extension, it keeps every
  identifier. Its effect for a month replaces the content by a notice when the fetch
  fails, writes the error to the console, and is fulfilled.
\<close>

lemma groupIndex_txt_examples:
  "groupIndex_txt [''2024-Dec.txt'', ''2024-Jan.txt'']
     = Inr [(''2024'', [''2024-Jan.txt'', ''2024-Dec.txt''])]"
  "groupIndex_txt [''2024-Jan.txt'', ''notes.md'']
     = Inr [(''2024'', [''2024-Jan.txt'']), (''notes.md'', [''notes.md''])]"
  by (simp_all add: groupIndex_txt_def addFile_txt_def Let_def yearOf_def push_def
      compareMonths_txt_def monthOf_txt_def MONTH_ORDER_def Object_prototype_def)

lemma contentEffect_failure:
  assumes "txt_selected st = Some file" and "file \<noteq> []"
    and "fetched = Inl e \<or> fetched = Inr (Response False j) \<or> fetched = Inr (Response True (Inl e))"
  shows "contentEffect fetched st
     = (Inr (),
        st\<lparr> txt_console := txt_console st @
              [(''Error loading patch content:'',
                if fetched = Inr (Response False j) then Error (''Failed to fetch '' @ file)
                else e)],
            txt_content := ''Failed to load content.'' \<rparr>)"
  using assms by (auto simp: contentEffect_def then_do_def catch_do_def)

end
